theory Spec2Isabelle
  imports Main
begin

section \<open>The multi-device batched pipeline of 2-get-semantic-GPUs.py\<close>

text \<open>
  The script fans a list of work items out over \<open>num_gpus\<close> devices. Per device a
  \<open>producer\<close> process puts feature records and one end marker (\<open>None\<close>) on a device
  queue, a \<open>process_gpu\<close> process assembles batches of 256 from that queue and puts one
  result list per batch on the shared result queue, and one \<open>consumer\<close> process saves
  the results until it has counted \<open>total_items\<close> of them.

  Conventions of the embedding.
  \<^item> A Python \<open>str\<close> is the \<open>string\<close> of its UTF-8 bytes. The script only splits at
    \<open>|\<close>, joins with \<open>/\<close> and appends \<open>.npy\<close>; these are ASCII, and an ASCII byte never
    occurs inside a multi-byte UTF-8 sequence, so the operations agree on both readings.
  \<^item> A \<open>multiprocessing.Queue\<close> is the list of the messages that are ever put on it, in
    the order of the puts; a message is an \<open>option\<close> with \<open>None\<close> for the end marker.
    Every queue of the script has one reader, so the reader's \<open>get\<close> calls return the
    messages of that list from the front, whatever the scheduling. A \<open>get\<close> on the
    exhausted list is a \<open>get\<close> that waits forever: nothing more will be put.
  \<^item> The audio front end (\<open>load_and_preprocess_audio\<close>), the ONNX session
    (\<open>session.run\<close>), the file decoder behind \<open>open\<close> and \<open>os.path.relpath\<close> are
    library code over floating point and the file system; they are parameters of the
    functions that call them.
\<close>

subsection \<open>Errors, work items, paths\<close>

datatype py_error = ZeroDivisionError | UnicodeDecodeError | UnicodeError

text \<open>Line 191: \<open>[spk_name, wav_name, text, index_folder]\<close>.\<close>

record work_item =
  spk_name :: string
  wav_name :: string
  line_text :: string
  index_folder :: string

definition dataset_dir :: string where
  "dataset_dir = ''./dataset''"

text \<open>
  \<open>os.path.join\<close> of \<open>posixpath\<close>: a component that starts with the separator replaces
  what came before it; otherwise it is appended, after a separator unless the path so
  far is empty or already ends with one.
\<close>

definition join_step :: "string \<Rightarrow> string \<Rightarrow> string" where
  "join_step path b =
     (if b \<noteq> [] \<and> hd b = CHR ''/'' then b
      else if path = [] \<or> last path = CHR ''/'' then path @ b
      else path @ ''/'' @ b)"

definition os_path_join :: "string \<Rightarrow> string list \<Rightarrow> string" where
  "os_path_join a p = foldl join_step a p"

text \<open>Lines 75-76 and 102-103: the path of the audio file of a work item.\<close>

definition wav_path_of :: "work_item \<Rightarrow> string" where
  "wav_path_of item = os_path_join dataset_dir [index_folder item, wav_name item]"

subsection \<open>Sharding (\<open>async_process\<close>, lines 136-139)\<close>

text \<open>\<open>xs[i:j]\<close> for indices \<open>0 \<le> i\<close>, \<open>0 \<le> j\<close>: out-of-range bounds are clipped.\<close>

definition py_slice :: "'a list \<Rightarrow> nat \<Rightarrow> nat \<Rightarrow> 'a list" where
  "py_slice xs i j = drop i (take j xs)"

text \<open>
  \<open>len(data) // num_gpus\<close> raises \<open>ZeroDivisionError\<close> for no device.
  \<open>data_batches[-1].extend(...)\<close> replaces the last slice by itself followed by the
  remainder; the slices are fresh lists, so nothing else changes.
\<close>

definition data_batches :: "'a list \<Rightarrow> nat \<Rightarrow> py_error + 'a list list" where
  "data_batches data num_gpus =
     (if num_gpus = 0 then Inl ZeroDivisionError
      else
        let batch_size = length data div num_gpus;
            batches = map (\<lambda>i. py_slice data (i * batch_size) ((i + 1) * batch_size))
                        [0..<num_gpus]
        in if length data mod num_gpus \<noteq> 0
           then Inr (batches[length batches - 1 :=
                       last batches @ py_slice data (num_gpus * batch_size) (length data)])
           else Inr batches)"

subsection \<open>Queues\<close>

text \<open>
  \<open>put\<close> appends; it never waits, the queues are unbounded. \<open>get\<close> takes the
  front message; on the exhausted list it is \<open>None\<close>: the caller waits forever.
\<close>

definition queue_put :: "'a list \<Rightarrow> 'a \<Rightarrow> 'a list" where
  "queue_put q x = q @ [x]"

definition queue_get :: "'a list \<Rightarrow> ('a \<times> 'a list) option" where
  "queue_get q = (case q of [] \<Rightarrow> None | x # q' \<Rightarrow> Some (x, q'))"

subsection \<open>\<open>producer\<close> (lines 73-79)\<close>

type_synonym 'feat feature_record = "'feat \<times> nat \<times> work_item"

text \<open>
  Lines 75-78: the message put for one item, \<open>(feat, feat_length, item)\<close>; \<open>load\<close> is
  \<open>load_and_preprocess_audio\<close>.
\<close>

definition feature_record ::
  "(string \<Rightarrow> nat \<Rightarrow> 'feat \<times> nat) \<Rightarrow> work_item \<Rightarrow> 'feat feature_record" where
  "feature_record load item =
     (let wav_path = os_path_join dataset_dir [index_folder item, wav_name item];
          (feat, feat_length) = load wav_path 16000
      in (feat, feat_length, item))"

fun producer_loop ::
  "(string \<Rightarrow> nat \<Rightarrow> 'feat \<times> nat) \<Rightarrow> 'feat feature_record option list \<Rightarrow> work_item list
     \<Rightarrow> 'feat feature_record option list" where
  "producer_loop load data_queue [] = data_queue"
| "producer_loop load data_queue (item # data) =
     producer_loop load (queue_put data_queue (Some (feature_record load item))) data"

definition producer ::
  "(string \<Rightarrow> nat \<Rightarrow> 'feat \<times> nat) \<Rightarrow> 'feat feature_record option list \<Rightarrow> work_item list
     \<Rightarrow> 'feat feature_record option list" where
  "producer load data_queue data = queue_put (producer_loop load data_queue data) None"

subsection \<open>\<open>process_gpu\<close> (lines 81-115)\<close>

text \<open>
  The inner loop, lines 86-94, started with \<open>n\<close> iterations to go. It is left in one
  of four ways:
  \<^item> \<open>RangeDone batch q\<close>: the range is used up;
  \<^item> \<open>Break batch q\<close>: line 90, the end marker was pulled and the batch is non-empty;
  \<^item> \<open>Return q\<close>: lines 92-93, the end marker was pulled and the batch is empty;
  \<^item> \<open>Waits batch\<close>: line 87 waits forever on the exhausted queue.
\<close>

datatype 'a loop_exit =
    RangeDone "'a list" "'a option list"
  | Break "'a list" "'a option list"
  | Return "'a option list"
  | Waits "'a list"

fun accumulate :: "nat \<Rightarrow> 'a option list \<Rightarrow> 'a list \<Rightarrow> 'a loop_exit" where
  "accumulate 0 data_queue batch = RangeDone batch data_queue"
| "accumulate (Suc n) data_queue batch =
     (case queue_get data_queue of
        None \<Rightarrow> Waits batch
      | Some (item, q) \<Rightarrow>
          (case item of
             None \<Rightarrow> if batch \<noteq> [] then Break batch q else Return q
           | Some x \<Rightarrow> accumulate n q (batch @ [x])))"

text \<open>Lines 100-112: the result list of one batch; \<open>run\<close> is the session's inference.\<close>

definition process_batch ::
  "('feat \<Rightarrow> nat \<Rightarrow> 'tok) \<Rightarrow> 'feat feature_record list \<Rightarrow> (string \<times> 'tok) list" where
  "process_batch run batch =
     map (\<lambda>(feat, feat_length, item).
            (os_path_join dataset_dir [index_folder item, wav_name item], run feat feat_length))
         batch"

text \<open>
  How \<open>process_gpu\<close> ends: \<open>Returned\<close> at line 93; \<open>FellThrough\<close> by the \<open>break\<close> of
  line 97 and the \<open>put\<close> of line 115; \<open>Blocked\<close> in a \<open>get\<close> that never returns.
\<close>

datatype gpu_exit = Returned | FellThrough | Blocked

record ('feat, 'tok) gpu_run =
  gpu_exit :: gpu_exit
  gpu_results :: "(string \<times> 'tok) list option list"
  gpu_pending :: "'feat feature_record option list"

text \<open>
  The \<open>while True\<close> loop, lines 84-114, and line 115. \<open>gpu_results\<close> is the result
  queue with everything this process has put on it, \<open>gpu_pending\<close> what it has left on
  its device queue.
\<close>

function process_gpu_loop ::
  "nat \<Rightarrow> ('feat \<Rightarrow> nat \<Rightarrow> 'tok) \<Rightarrow> 'feat feature_record option list
     \<Rightarrow> (string \<times> 'tok) list option list \<Rightarrow> ('feat, 'tok) gpu_run" where
  "process_gpu_loop batch_size run data_queue result_queue =
     (case accumulate batch_size data_queue [] of
        Waits batch \<Rightarrow>
          \<lparr>gpu_exit = Blocked, gpu_results = result_queue, gpu_pending = []\<rparr>
      | Return q \<Rightarrow>
          \<lparr>gpu_exit = Returned, gpu_results = queue_put result_queue None, gpu_pending = q\<rparr>
      | Break batch q \<Rightarrow>
          if batch = []
          then \<lparr>gpu_exit = FellThrough, gpu_results = queue_put result_queue None,
                 gpu_pending = q\<rparr>
          else process_gpu_loop batch_size run q
                 (queue_put result_queue (Some (process_batch run batch)))
      | RangeDone batch q \<Rightarrow>
          if batch = []
          then \<lparr>gpu_exit = FellThrough, gpu_results = queue_put result_queue None,
                 gpu_pending = q\<rparr>
          else process_gpu_loop batch_size run q
                 (queue_put result_queue (Some (process_batch run batch))))"
  by pat_completeness auto

text \<open>
  Lines 82-83: the session of the device (\<open>create_inference_session\<close>) and the batch
  size.
\<close>

definition process_gpu ::
  "(nat \<Rightarrow> 'feat \<Rightarrow> nat \<Rightarrow> 'tok) \<Rightarrow> nat \<Rightarrow> 'feat feature_record option list
     \<Rightarrow> (string \<times> 'tok) list option list \<Rightarrow> ('feat, 'tok) gpu_run" where
  "process_gpu create_inference_session gpu_id data_queue result_queue =
     (let session = create_inference_session gpu_id;
          batch_size = 256
      in process_gpu_loop batch_size session data_queue result_queue)"

subsection \<open>\<open>consumer\<close> (lines 117-130)\<close>

text \<open>
  The state of the result sink: its counter, the files under the dataset directory
  (path to content) and the \<open>np.save\<close> calls made so far, in order.
\<close>

record 'tok sink =
  processed_items :: nat
  storage :: "string \<rightharpoonup> 'tok"
  saved :: "(string \<times> 'tok) list"

text \<open>
  \<open>np.save(path, arr)\<close> opens \<open>path\<close> for writing and replaces what was there. (It
  appends \<open>.npy\<close> to a name that lacks it; every name here ends with it.)
\<close>

definition np_save :: "(string \<rightharpoonup> 'tok) \<Rightarrow> string \<Rightarrow> 'tok \<Rightarrow> (string \<rightharpoonup> 'tok)" where
  "np_save fs path arr = fs(path \<mapsto> arr)"

text \<open>The \<open>for\<close> loop of lines 124-128.\<close>

fun save_results :: "'tok sink \<Rightarrow> (string \<times> 'tok) list \<Rightarrow> 'tok sink" where
  "save_results s [] = s"
| "save_results s ((wav_path, speech_token) # results) =
     (let speech_token_path = wav_path @ ''.npy''
      in save_results
           (s\<lparr>storage := np_save (storage s) speech_token_path speech_token,
              saved := saved s @ [(speech_token_path, speech_token)],
              processed_items := processed_items s + 1\<rparr>)
           results)"

datatype sink_exit = Finished | WaitsForResults

text \<open>
  The \<open>while\<close> loop of lines 120-128: the exit, the state and what is left on the result
  queue.
\<close>

function consumer_loop ::
  "nat \<Rightarrow> 'tok sink \<Rightarrow> (string \<times> 'tok) list option list
     \<Rightarrow> sink_exit \<times> 'tok sink \<times> (string \<times> 'tok) list option list" where
  "consumer_loop total_items s result_queue =
     (if processed_items s < total_items
      then (case queue_get result_queue of
              None \<Rightarrow> (WaitsForResults, s, [])
            | Some (results, q) \<Rightarrow>
                (case results of
                   None \<Rightarrow> consumer_loop total_items s q
                 | Some rs \<Rightarrow> consumer_loop total_items (save_results s rs) q))
      else (Finished, s, result_queue))"
  by pat_completeness auto

text \<open>\<open>fs\<close> is the file system the run starts with.\<close>

definition consumer ::
  "(string \<rightharpoonup> 'tok) \<Rightarrow> (string \<times> 'tok) list option list \<Rightarrow> nat
     \<Rightarrow> sink_exit \<times> 'tok sink \<times> (string \<times> 'tok) list option list" where
  "consumer fs result_queue total_items =
     consumer_loop total_items \<lparr>processed_items = 0, storage = fs, saved = []\<rparr> result_queue"

subsection \<open>Work-list discovery (\<open>__main__\<close>, lines 168-193)\<close>

datatype encoding = UTF8 | GBK | GB2312 | UTF16

definition encodings :: "encoding list" where
  "encodings = [UTF8, GBK, GB2312, UTF16]"

text \<open>
  Lines 177-186. \<open>opn file_path encoding\<close> is \<open>open\<close> followed by \<open>readlines\<close>: the
  lines, or the exception raised. The \<open>except\<close> clause names \<open>UnicodeDecodeError\<close>
  only; any other exception leaves the loop and the script. \<open>Inr None\<close> is the \<open>else\<close>
  branch of the \<open>for\<close>: no encoding was left.
\<close>

fun read_lines ::
  "(string \<Rightarrow> encoding \<Rightarrow> py_error + string list) \<Rightarrow> string \<Rightarrow> encoding list
     \<Rightarrow> py_error + string list option" where
  "read_lines opn file_path [] = Inr None"
| "read_lines opn file_path (encoding # rest) =
     (case opn file_path encoding of
        Inr lines \<Rightarrow> Inr (Some lines)
      | Inl err \<Rightarrow>
          if err = UnicodeDecodeError then read_lines opn file_path rest else Inl err)"

text \<open>\<open>s.split(sep)\<close> for a separator of one character.\<close>

fun split_at :: "char \<Rightarrow> string \<Rightarrow> string list" where
  "split_at sep [] = [[]]"
| "split_at sep (c # cs) =
     (if c = sep then [] # split_at sep cs
      else (case split_at sep cs of
              [] \<Rightarrow> [[c]]
            | w # ws \<Rightarrow> (c # w) # ws))"

text \<open>What the script prints on a skipped file (line 185) and a skipped line (line 193).\<close>

datatype diagnostic = CannotDecode string | BadLine string

record discovery =
  todo :: "work_item list"
  printed :: "diagnostic list"

text \<open>
  Lines 188-193: unpacking into three names raises \<open>ValueError\<close> unless the line has
  exactly three fields; the handler prints the line.
\<close>

fun parse_lines :: "string \<Rightarrow> discovery \<Rightarrow> string list \<Rightarrow> discovery" where
  "parse_lines folder d [] = d"
| "parse_lines folder d (line # lines) =
     (case split_at CHR ''|'' line of
        [spk, wav, txt_field] \<Rightarrow>
          parse_lines folder
            (d\<lparr>todo := todo d @
                 [\<lparr>spk_name = spk, wav_name = wav, line_text = txt_field,
                   index_folder = folder\<rparr>]\<rparr>)
            lines
      | _ \<Rightarrow> parse_lines folder (d\<lparr>printed := printed d @ [BadLine line]\<rparr>) lines)"

definition endswith :: "string \<Rightarrow> string \<Rightarrow> bool" where
  "endswith s suffix =
     (length suffix \<le> length s \<and> drop (length s - length suffix) s = suffix)"

text \<open>
  Lines 170-193 for the files of one directory \<open>root\<close>; \<open>relpath\<close> is
  \<open>os.path.relpath\<close>.
\<close>

fun files_loop ::
  "(string \<Rightarrow> encoding \<Rightarrow> py_error + string list) \<Rightarrow> (string \<Rightarrow> string \<Rightarrow> string) \<Rightarrow> string
     \<Rightarrow> discovery \<Rightarrow> string list \<Rightarrow> py_error + discovery" where
  "files_loop opn relpath root d [] = Inr d"
| "files_loop opn relpath root d (file # rest) =
     (if endswith file ''.txt''
      then
        (let folder = relpath root dataset_dir;
             file_path = os_path_join root [file]
         in case read_lines opn file_path encodings of
              Inl err \<Rightarrow> Inl err
            | Inr None \<Rightarrow>
                files_loop opn relpath root
                  (d\<lparr>printed := printed d @ [CannotDecode file_path]\<rparr>) rest
            | Inr (Some lines) \<Rightarrow>
                files_loop opn relpath root (parse_lines folder d lines) rest)
      else files_loop opn relpath root d rest)"

text \<open>Line 169: \<open>walk\<close> is what \<open>os.walk(dataset_dir)\<close> yields, \<open>(root, dirs, files)\<close>.\<close>

fun walk_loop ::
  "(string \<Rightarrow> encoding \<Rightarrow> py_error + string list) \<Rightarrow> (string \<Rightarrow> string \<Rightarrow> string)
     \<Rightarrow> discovery \<Rightarrow> (string \<times> string list \<times> string list) list \<Rightarrow> py_error + discovery" where
  "walk_loop opn relpath d [] = Inr d"
| "walk_loop opn relpath d ((root, dirs, files) # rest) =
     (case files_loop opn relpath root d files of
        Inl err \<Rightarrow> Inl err
      | Inr d' \<Rightarrow> walk_loop opn relpath d' rest)"

definition discover ::
  "(string \<Rightarrow> encoding \<Rightarrow> py_error + string list) \<Rightarrow> (string \<Rightarrow> string \<Rightarrow> string)
     \<Rightarrow> (string \<times> string list \<times> string list) list \<Rightarrow> py_error + discovery" where
  "discover opn relpath walk = walk_loop opn relpath \<lparr>todo = [], printed = []\<rparr> walk"

subsection \<open>Notions used to state the properties\<close>

text \<open>
  The batches the specification expects for a shard \<open>xs\<close> and batch size \<open>B\<close>:
  \<open>floor(S/B)\<close> full batches, the \<open>k\<close>-th holding the items \<open>k * B\<close> up to
  \<open>(k + 1) * B\<close>, and a final batch of the remaining \<open>S mod B\<close> items when there are
  any.
\<close>

definition full_batches :: "nat \<Rightarrow> 'a list \<Rightarrow> 'a list list" where
  "full_batches B xs = map (\<lambda>k. py_slice xs (k * B) ((k + 1) * B)) [0..<length xs div B]"

definition final_batch :: "nat \<Rightarrow> 'a list \<Rightarrow> 'a list list" where
  "final_batch B xs =
     (if 0 < length xs mod B then [drop (B * (length xs div B)) xs] else [])"

text \<open>The result records that a list of result-queue messages carries, in order.\<close>

fun results_of :: "'a list option list \<Rightarrow> 'a list" where
  "results_of [] = []"
| "results_of (None # msgs) = results_of msgs"
| "results_of (Some rs # msgs) = rs @ results_of msgs"

text \<open>What \<open>np.save\<close> is called with for one result record (lines 125-126).\<close>

definition artifact :: "string \<times> 'tok \<Rightarrow> string \<times> 'tok" where
  "artifact r = (fst r @ ''.npy'', snd r)"

text \<open>
  What the \<open>process_gpu\<close> process of device \<open>gpu_id\<close> puts on the shared result queue
  when its \<open>producer\<close> works on \<open>shard\<close>.
\<close>

definition device_puts ::
  "(nat \<Rightarrow> 'feat \<Rightarrow> nat \<Rightarrow> 'tok) \<Rightarrow> (string \<Rightarrow> nat \<Rightarrow> 'feat \<times> nat) \<Rightarrow> nat \<Rightarrow> work_item list
     \<Rightarrow> (string \<times> 'tok) list option list" where
  "device_puts create_inference_session load gpu_id shard =
     gpu_results (process_gpu create_inference_session gpu_id (producer load [] shard) [])"

text \<open>
  Lines 145-155: device \<open>gpu_id\<close> works on \<open>data_batches[gpu_id]\<close>. The lists of what
  each device puts on the shared result queue, by device.
\<close>

definition pipeline_puts ::
  "(nat \<Rightarrow> 'feat \<Rightarrow> nat \<Rightarrow> 'tok) \<Rightarrow> (string \<Rightarrow> nat \<Rightarrow> 'feat \<times> nat) \<Rightarrow> work_item list list
     \<Rightarrow> (string \<times> 'tok) list option list list" where
  "pipeline_puts create_inference_session load shards =
     map (\<lambda>(gpu_id, shard). device_puts create_inference_session load gpu_id shard)
       (zip [0..<length shards] shards)"

text \<open>
  The shared result queue has several writers. Its contents are some interleaving of
  what the writers put: \<open>interleaving yss zs\<close> holds when \<open>zs\<close> merges the lists \<open>yss\<close>,
  keeping the order within each.
\<close>

inductive interleaving :: "'a list list \<Rightarrow> 'a list \<Rightarrow> bool" where
  drained: "concat yss = [] \<Longrightarrow> interleaving yss []"
| next_from: "i < length yss \<Longrightarrow> yss ! i = x # ys \<Longrightarrow> interleaving (yss[i := ys]) zs
     \<Longrightarrow> interleaving yss (x # zs)"

subsection \<open>Sharding: proofs\<close>

lemma take_then_slice:
  "take m xs @ py_slice xs m (m + k) = take (m + k) xs"
proof -
  have "take m (take (m + k) xs) = take m xs"
    by (simp add: min_def)
  then have "take m xs @ drop m (take (m + k) xs) = take (m + k) xs"
    by (metis append_take_drop_id)
  then show ?thesis
    by (simp add: py_slice_def)
qed

lemma concat_slices:
  "concat (map (\<lambda>i. py_slice xs (i * b) ((i + 1) * b)) [0..<n]) = take (n * b) xs"
proof (induction n)
  case 0
  show ?case by simp
next
  case (Suc n)
  have "take (n * b) xs @ py_slice xs (n * b) (n * b + b) = take (n * b + b) xs"
    by (rule take_then_slice)
  with Suc show ?case
    by (simp add: add.commute)
qed

lemma length_slice_in_range:
  "(i + 1) * b \<le> length xs \<Longrightarrow> length (py_slice xs (i * b) ((i + 1) * b)) = b"
  by (simp add: py_slice_def)

lemma extend_last:
  assumes "ss \<noteq> []"
  shows "ss[length ss - 1 := last ss @ e] = butlast ss @ [last ss @ e]"
proof -
  from assms obtain ys y where ss: "ss = ys @ [y]"
    by (metis append_butlast_last_id)
  show ?thesis
    by (simp add: ss)
qed

lemma concat_extend_last:
  assumes "ss \<noteq> []"
  shows "concat (ss[length ss - 1 := last ss @ e]) = concat ss @ e"
proof -
  from assms obtain ys y where ss: "ss = ys @ [y]"
    by (metis append_butlast_last_id)
  show ?thesis
    by (simp add: ss)
qed

subsection \<open>The inner loop and termination of the loops\<close>

lemma accumulate_empty [simp]: "accumulate (Suc n) [] batch = Waits batch"
  by (simp add: queue_get_def)

lemma accumulate_end_marker [simp]:
  "accumulate (Suc n) (None # q) batch = (if batch \<noteq> [] then Break batch q else Return q)"
  by (simp add: queue_get_def)

lemma accumulate_item [simp]:
  "accumulate (Suc n) (Some x # q) batch = accumulate n q (batch @ [x])"
  by (simp add: queue_get_def)

declare accumulate.simps(2) [simp del]

lemma accumulate_RangeDone:
  "accumulate n q acc = RangeDone b q' \<Longrightarrow>
     length b + length q' = length acc + length q \<and> length b = length acc + n"
proof (induction q arbitrary: n acc)
  case Nil
  then show ?case by (cases n) simp_all
next
  case (Cons m q)
  show ?case
  proof (cases n)
    case 0
    with Cons.prems show ?thesis by simp
  next
    case (Suc k)
    show ?thesis
    proof (cases m)
      case None
      with Cons.prems Suc show ?thesis by (simp split: if_splits)
    next
      case (Some x)
      with Cons.prems Suc have "accumulate k q (acc @ [x]) = RangeDone b q'" by simp
      from Cons.IH[OF this] Suc show ?thesis by simp
    qed
  qed
qed

lemma accumulate_Break:
  "accumulate n q acc = Break b q' \<Longrightarrow>
     Suc (length b + length q') = length acc + length q \<and> length b < length acc + n \<and> b \<noteq> []"
proof (induction q arbitrary: n acc)
  case Nil
  then show ?case by (cases n) simp_all
next
  case (Cons m q)
  show ?case
  proof (cases n)
    case 0
    with Cons.prems show ?thesis by simp
  next
    case (Suc k)
    show ?thesis
    proof (cases m)
      case None
      with Cons.prems Suc show ?thesis by (auto split: if_splits)
    next
      case (Some x)
      with Cons.prems Suc have "accumulate k q (acc @ [x]) = Break b q'" by simp
      from Cons.IH[OF this] Suc show ?thesis by simp
    qed
  qed
qed

lemma accumulate_shorter:
  assumes "accumulate n q [] = RangeDone b q' \<or> accumulate n q [] = Break b q'" and "b \<noteq> []"
  shows "length q' < length q"
proof -
  from \<open>b \<noteq> []\<close> have pos: "0 < length b" by simp
  from assms(1) show ?thesis
  proof
    assume "accumulate n q [] = RangeDone b q'"
    from accumulate_RangeDone[OF this] pos show ?thesis by simp
  next
    assume "accumulate n q [] = Break b q'"
    from accumulate_Break[OF this] show ?thesis by simp
  qed
qed

termination process_gpu_loop
proof (relation "measure (\<lambda>(batch_size, run, data_queue, result_queue). length data_queue)")
  show "wf (measure (\<lambda>(batch_size, run, data_queue, result_queue). length data_queue))"
    by simp
next
  fix batch_size :: nat and run :: "'a \<Rightarrow> nat \<Rightarrow> 'b"
    and data_queue :: "'a feature_record option list"
    and result_queue :: "(string \<times> 'b) list option list" and b q
  assume "accumulate batch_size data_queue [] = Break b q" and "b \<noteq> []"
  then have "length q < length data_queue"
    using accumulate_shorter by blast
  then show "((batch_size, run, q, queue_put result_queue (Some (process_batch run b))),
              batch_size, run, data_queue, result_queue)
             \<in> measure (\<lambda>(batch_size, run, data_queue, result_queue). length data_queue)"
    by simp
next
  fix batch_size :: nat and run :: "'a \<Rightarrow> nat \<Rightarrow> 'b"
    and data_queue :: "'a feature_record option list"
    and result_queue :: "(string \<times> 'b) list option list" and b q
  assume "accumulate batch_size data_queue [] = RangeDone b q" and "b \<noteq> []"
  then have "length q < length data_queue"
    using accumulate_shorter by blast
  then show "((batch_size, run, q, queue_put result_queue (Some (process_batch run b))),
              batch_size, run, data_queue, result_queue)
             \<in> measure (\<lambda>(batch_size, run, data_queue, result_queue). length data_queue)"
    by simp
qed

termination consumer_loop
  by (relation "measure (\<lambda>(total_items, s, result_queue). length result_queue)")
     (auto simp: queue_get_def split: list.splits)

declare process_gpu_loop.simps [simp del] consumer_loop.simps [simp del]

lemma accumulate_items:
  "accumulate n (map Some xs @ q) acc =
     (if n \<le> length xs then RangeDone (acc @ take n xs) (map Some (drop n xs) @ q)
      else accumulate (n - length xs) q (acc @ xs))"
proof (induction xs arbitrary: n acc)
  case Nil
  then show ?case by simp
next
  case (Cons x xs)
  then show ?case by (cases n) simp_all
qed

subsection \<open>Sharding: the partition and the degenerate cases\<close>

lemma slices_length:
  "n * b \<le> length xs \<Longrightarrow>
     map length (map (\<lambda>i. py_slice xs (i * b) ((i + 1) * b)) [0..<n]) = replicate n b"
proof (induction n)
  case 0
  show ?case by simp
next
  case (Suc n)
  then have "length (py_slice xs (n * b) ((n + 1) * b)) = b"
    by (intro length_slice_in_range) simp
  with Suc show ?case
    by (simp add: replicate_append_same)
qed

lemma butlast_replicate_same: "butlast (replicate n x) = replicate (n - 1) x"
proof (cases n)
  case 0
  then show ?thesis by simp
next
  case (Suc k)
  have "replicate (Suc k) x = replicate k x @ [x]"
    by (simp add: replicate_append_same)
  with Suc show ?thesis by (simp del: replicate_Suc)
qed

lemma last_replicate_same: "0 < n \<Longrightarrow> last (replicate n x) = x"
  by (cases n) simp_all

lemma data_batches_even:
  assumes "0 < D" and "length data mod D = 0"
  shows "data_batches data D =
           Inr (map (\<lambda>i. py_slice data (i * (length data div D)) ((i + 1) * (length data div D)))
                  [0..<D])"
  using assms by (simp add: data_batches_def Let_def)

lemma data_batches_uneven:
  assumes "0 < D" and "length data mod D \<noteq> 0"
  shows "data_batches data D =
           Inr (butlast (map (\<lambda>i. py_slice data (i * (length data div D))
                                    ((i + 1) * (length data div D))) [0..<D])
                @ [last (map (\<lambda>i. py_slice data (i * (length data div D))
                                    ((i + 1) * (length data div D))) [0..<D])
                   @ drop (D * (length data div D)) data])"
proof -
  let ?ss = "map (\<lambda>i. py_slice data (i * (length data div D)) ((i + 1) * (length data div D)))
               [0..<D]"
  from \<open>0 < D\<close> have ne: "?ss \<noteq> []" by simp
  have "py_slice data (D * (length data div D)) (length data) = drop (D * (length data div D)) data"
    by (simp add: py_slice_def)
  with assms extend_last[OF ne] show ?thesis
    by (simp add: data_batches_def Let_def)
qed

lemma data_batches_partition:
  assumes "0 < D"
  shows "\<exists>shards. data_batches data D = Inr shards \<and> length shards = D \<and> concat shards = data
           \<and> map length (butlast shards) = replicate (D - 1) (length data div D)
           \<and> length (last shards) = length data div D + length data mod D"
proof -
  let ?b = "length data div D"
  let ?ss = "map (\<lambda>i. py_slice data (i * ?b) ((i + 1) * ?b)) [0..<D]"
  from \<open>0 < D\<close> have ne: "?ss \<noteq> []" by simp
  have le: "D * ?b \<le> length data" by simp
  then have le': "D * ?b \<le> length data" .
  have lens: "map length ?ss = replicate D ?b"
    using slices_length[of D ?b data] le by (simp add: mult.commute)
  have cat: "concat ?ss = take (D * ?b) data"
    using concat_slices[of data ?b D] by simp
  have bl: "map length (butlast ?ss) = replicate (D - 1) ?b"
    using lens by (simp add: map_butlast butlast_replicate_same)
  have la: "length (last ?ss) = ?b"
  proof -
    have "length (last ?ss) = last (map length ?ss)"
      using ne by (rule last_map[symmetric])
    also have "\<dots> = ?b"
      using lens \<open>0 < D\<close> by (simp only: last_replicate_same)
    finally show ?thesis .
  qed
  have len: "length ?ss = D" by simp
  show ?thesis
  proof (cases "length data mod D = 0")
    case True
    have "D * ?b + length data mod D = length data" by (rule mult_div_mod_eq)
    with True have "D * ?b = length data" by linarith
    with cat have c: "concat ?ss = data" by simp
    have l: "length (last ?ss) = ?b + length data mod D"
      using la True by simp
    from data_batches_even[OF assms True] len c bl l show ?thesis
      by blast
  next
    case False
    let ?e = "drop (D * ?b) data"
    let ?ts = "butlast ?ss @ [last ?ss @ ?e]"
    have "concat ?ts = concat (butlast ?ss @ [last ?ss]) @ ?e"
      by simp
    also have "\<dots> = concat ?ss @ ?e"
      by (simp only: append_butlast_last_id[OF ne])
    also have "\<dots> = data"
      using cat by (simp only: append_take_drop_id)
    finally have c: "concat ?ts = data" .
    have e: "D * ?b + length data mod D = length data" by (rule mult_div_mod_eq)
    have "length ?e = length data - D * ?b" by simp
    with e have "length ?e = length data mod D" by linarith
    with la have l: "length (last ?ts) = ?b + length data mod D" by simp
    have len': "length ?ts = D"
      using \<open>0 < D\<close> by simp
    have bl': "map length (butlast ?ts) = replicate (D - 1) ?b"
      using bl by (simp only: butlast_snoc)
    from data_batches_uneven[OF assms False] len' c bl' l show ?thesis
      by blast
  qed
qed

lemma data_batches_more_devices:
  assumes "0 < D" and "length data < D"
  shows "data_batches data D = Inr (replicate (D - 1) [] @ [data])"
proof -
  from assms have b: "length data div D = 0" by simp
  let ?ss = "map (\<lambda>i. py_slice data (i * (length data div D)) ((i + 1) * (length data div D)))
               [0..<D]"
  have ss: "?ss = replicate D []"
    by (simp add: b py_slice_def map_replicate_const)
  from \<open>0 < D\<close> obtain k where D: "D = Suc k" by (cases D) simp_all
  have snoc: "replicate D ([]::'a list) = replicate (D - 1) [] @ [[]]"
    by (simp add: D replicate_append_same)
  show ?thesis
  proof (cases "length data mod D = 0")
    case True
    with assms have "data = []" by simp
    with data_batches_even[OF assms(1) True] ss snoc show ?thesis by simp
  next
    case False
    have "last ?ss = []" "butlast ?ss = replicate (D - 1) []"
      using ss \<open>0 < D\<close> by (simp_all add: last_replicate_same butlast_replicate_same)
    with data_batches_uneven[OF assms(1) False] b show ?thesis by simp
  qed
qed

text \<open>
  C2. For every work list and every device count \<open>D \<ge> 1\<close> the sharding step succeeds
  with \<open>D\<close> shards whose concatenation is the work list (every item once, in the
  original order); every shard but the last has \<open>floor(N/D)\<close> items and the last has
  \<open>floor(N/D) + N mod D\<close>.
\<close>

theorem shards_partition:
  assumes "0 < D"
  shows "\<exists>shards. data_batches data D = Inr shards \<and> length shards = D \<and> concat shards = data
           \<and> map length (butlast shards) = replicate (D - 1) (length data div D)
           \<and> length (last shards) = length data div D + length data mod D"
  using assms by (rule data_batches_partition)

theorem shards_partition_witness:
  "(0::nat) < 3 \<and>
   (\<exists>shards. data_batches [10, 11, 12, 13, 14, 15, 16, 17 :: nat] 3 = Inr shards
      \<and> length shards = 3 \<and> concat shards = [10, 11, 12, 13, 14, 15, 16, 17]
      \<and> map length (butlast shards) = [2, 2] \<and> length (last shards) = 4)"
proof -
  have h: "(0::nat) < 3" by simp
  have r: "replicate (3 - 1) (length [10, 11, 12, 13, 14, 15, 16, 17 :: nat] div 3) = [2, 2]"
    by code_simp
  show ?thesis
    using h shards_partition[OF h, of "[10, 11, 12, 13, 14, 15, 16, 17 :: nat]"] r by simp
qed

text \<open>
  C8. More devices than items is not fatal at the sharding step: with two devices and
  one item the step returns two shards, the first of them empty.
\<close>

theorem more_devices_counterexample:
  "data_batches [7 :: nat] 2 = Inr [[], [7]]"
  by code_simp

text \<open>
  C8 as amended. With no device the sharding step raises \<open>ZeroDivisionError\<close>. With
  more devices than items (and at least one device) it succeeds: every shard but the
  last is empty and the last shard is the whole work list.
\<close>

theorem sharding_degenerate:
  "data_batches data 0 = Inl ZeroDivisionError \<and>
   (0 < D \<and> length data < D \<longrightarrow> data_batches data D = Inr (replicate (D - 1) [] @ [data]))"
  by (simp add: data_batches_more_devices) (simp add: data_batches_def)

theorem sharding_degenerate_witness:
  "data_batches [1, 2 :: nat] 0 = Inl ZeroDivisionError \<and>
   (0::nat) < 3 \<and> length [1, 2 :: nat] < 3 \<and>
   data_batches [1, 2 :: nat] 3 = Inr [[], [], [1, 2]]"
proof -
  have r: "replicate (3 - 1) [] @ [[1, 2 :: nat]] = [[], [], [1, 2]]"
    by code_simp
  show ?thesis
    using sharding_degenerate[of "[1, 2 :: nat]" 3] r by simp
qed

subsection \<open>\<open>process_gpu\<close>: one turn of the outer loop\<close>

lemma gpu_full_batch:
  assumes "0 < B" and "length xs = B"
  shows "process_gpu_loop B run (map Some xs @ q) rq =
           process_gpu_loop B run q (rq @ [Some (process_batch run xs)])"
proof -
  from assms have "accumulate B (map Some xs @ q) [] = RangeDone xs q"
    by (simp add: accumulate_items)
  moreover from assms have "xs \<noteq> []" by auto
  ultimately show ?thesis
    by (subst process_gpu_loop.simps) (simp add: queue_put_def)
qed

lemma gpu_partial_batch:
  assumes "xs \<noteq> []" and "length xs < B"
  shows "process_gpu_loop B run (map Some xs @ None # q) rq =
           process_gpu_loop B run q (rq @ [Some (process_batch run xs)])"
proof -
  from assms obtain k where k: "B - length xs = Suc k"
    by (cases "B - length xs") simp_all
  from assms have "accumulate B (map Some xs @ None # q) [] = accumulate (B - length xs) (None # q) xs"
    by (simp add: accumulate_items)
  also have "\<dots> = Break xs q"
    using assms(1) by (simp add: k)
  finally have "accumulate B (map Some xs @ None # q) [] = Break xs q" .
  with assms(1) show ?thesis
    by (subst process_gpu_loop.simps) (simp add: queue_put_def)
qed

lemma gpu_end_marker:
  assumes "0 < B"
  shows "process_gpu_loop B run (None # q) rq =
           \<lparr>gpu_exit = Returned, gpu_results = rq @ [None], gpu_pending = q\<rparr>"
proof -
  from assms obtain k where k: "B = Suc k" by (cases B) simp_all
  have "accumulate B (None # q) [] = Return q" by (simp add: k)
  then show ?thesis
    by (subst process_gpu_loop.simps) (simp add: queue_put_def)
qed

lemma gpu_starved:
  assumes "length xs < B"
  shows "process_gpu_loop B run (map Some xs) rq =
           \<lparr>gpu_exit = Blocked, gpu_results = rq, gpu_pending = []\<rparr>"
proof -
  from assms obtain k where k: "B - length xs = Suc k"
    by (cases "B - length xs") simp_all
  from assms have "accumulate B (map Some xs @ []) [] = accumulate (B - length xs) [] xs"
    by (simp only: accumulate_items) simp
  then have "accumulate B (map Some xs) [] = Waits xs"
    by (simp add: k)
  then show ?thesis
    by (subst process_gpu_loop.simps) simp
qed

lemma gpu_no_iterations:
  "process_gpu_loop 0 run q rq =
     \<lparr>gpu_exit = FellThrough, gpu_results = rq @ [None], gpu_pending = q\<rparr>"
  by (subst process_gpu_loop.simps) (simp add: queue_put_def)

lemma slice_is_take_drop: "py_slice xs (k * B) ((k + 1) * B) = take B (drop (k * B) xs)"
  by (simp add: py_slice_def take_drop add.commute)

lemma gpu_after_full_batches:
  assumes "0 < B" and "k * B \<le> length xs"
  shows "process_gpu_loop B run (map Some xs @ q) rq =
           process_gpu_loop B run (map Some (drop (k * B) xs) @ q)
             (rq @ map (\<lambda>b. Some (process_batch run b))
                     (map (\<lambda>j. py_slice xs (j * B) ((j + 1) * B)) [0..<k]))"
  using assms(2)
proof (induction k)
  case 0
  show ?case by simp
next
  case (Suc k)
  let ?rest = "drop (k * B) xs"
  let ?b = "take B ?rest"
  from Suc.prems have len: "length ?b = B" by simp
  have split: "map Some ?rest @ q = map Some ?b @ (map Some (drop (Suc k * B) xs) @ q)"
  proof -
    have a: "?rest = ?b @ drop B ?rest"
      by (rule append_take_drop_id[symmetric])
    have b: "drop B ?rest = drop (Suc k * B) xs" by (simp add: add.commute)
    have "map Some ?rest = map Some (?b @ drop B ?rest)"
      using a by simp
    also have "\<dots> = map Some ?b @ map Some (drop (Suc k * B) xs)"
      unfolding b by (rule map_append)
    finally show ?thesis by simp
  qed
  from Suc.prems have "k * B \<le> length xs" by simp
  from Suc.IH[OF this] have
    "process_gpu_loop B run (map Some xs @ q) rq =
       process_gpu_loop B run (map Some ?rest @ q)
         (rq @ map (\<lambda>b. Some (process_batch run b))
                 (map (\<lambda>j. py_slice xs (j * B) ((j + 1) * B)) [0..<k]))" .
  also have "\<dots> =
       process_gpu_loop B run (map Some (drop (Suc k * B) xs) @ q)
         ((rq @ map (\<lambda>b. Some (process_batch run b))
                 (map (\<lambda>j. py_slice xs (j * B) ((j + 1) * B)) [0..<k]))
          @ [Some (process_batch run ?b)])"
    unfolding split by (rule gpu_full_batch[OF assms(1) len])
  also have "(rq @ map (\<lambda>b. Some (process_batch run b))
                 (map (\<lambda>j. py_slice xs (j * B) ((j + 1) * B)) [0..<k]))
          @ [Some (process_batch run ?b)] =
        rq @ map (\<lambda>b. Some (process_batch run b))
                 (map (\<lambda>j. py_slice xs (j * B) ((j + 1) * B)) [0..<Suc k])"
    using slice_is_take_drop[of xs k B] by simp
  finally show ?case .
qed

subsection \<open>\<open>producer\<close> and a whole shard through \<open>process_gpu\<close>\<close>

lemma producer_loop_appends:
  "producer_loop load q data = q @ map (\<lambda>item. Some (feature_record load item)) data"
  by (induction data arbitrary: q) (simp_all add: queue_put_def)

lemma producer_queue:
  "producer load q data = q @ map Some (map (feature_record load) data) @ [None]"
  by (simp add: producer_def producer_loop_appends queue_put_def)

lemma feature_record_item: "snd (snd (feature_record load item)) = item"
  by (simp add: feature_record_def Let_def split: prod.splits)

lemma feature_record_eq:
  "feature_record load item =
     (fst (load (wav_path_of item) 16000), snd (load (wav_path_of item) 16000), item)"
  by (simp add: feature_record_def wav_path_of_def Let_def split: prod.splits)

lemma remainder_short:
  assumes "0 < B"
  shows "length (drop (length xs div B * B) xs) = length xs mod B"
proof -
  have "length xs div B * B + length xs mod B = length xs"
    by (rule div_mult_mod_eq)
  moreover have "length (drop (length xs div B * B) xs) = length xs - length xs div B * B"
    by simp
  ultimately show ?thesis by linarith
qed

lemma gpu_shard:
  assumes "0 < B"
  shows "process_gpu_loop B run (map Some xs @ [None]) rq =
           \<lparr>gpu_exit = (if length xs mod B = 0 then Returned else Blocked),
            gpu_results = rq @ map (\<lambda>b. Some (process_batch run b))
                                (full_batches B xs @ final_batch B xs)
                             @ (if length xs mod B = 0 then [None] else []),
            gpu_pending = []\<rparr>"
proof -
  let ?k = "length xs div B"
  let ?r = "drop (?k * B) xs"
  let ?rq = "rq @ map (\<lambda>b. Some (process_batch run b)) (full_batches B xs)"
  have le: "?k * B \<le> length xs" by simp
  have len_r: "length ?r = length xs mod B"
    by (rule remainder_short[OF assms])
  have step: "process_gpu_loop B run (map Some xs @ [None]) rq =
                process_gpu_loop B run (map Some ?r @ [None]) ?rq"
    using gpu_after_full_batches[OF assms le, of run "[None]" rq]
    by (simp add: full_batches_def)
  show ?thesis
  proof (cases "length xs mod B = 0")
    case True
    with len_r have "?r = []" by simp
    with step have "process_gpu_loop B run (map Some xs @ [None]) rq =
                      process_gpu_loop B run [None] ?rq" by simp
    also have "\<dots> = \<lparr>gpu_exit = Returned, gpu_results = ?rq @ [None], gpu_pending = []\<rparr>"
      by (rule gpu_end_marker[OF assms])
    finally show ?thesis using True by (simp add: final_batch_def)
  next
    case False
    with len_r have ne: "?r \<noteq> []" by auto
    from len_r assms have short: "length ?r < B" by simp
    have fb: "final_batch B xs = [?r]"
      using False by (simp add: final_batch_def mult.commute)
    from step have "process_gpu_loop B run (map Some xs @ [None]) rq =
                      process_gpu_loop B run (map Some ?r @ None # []) ?rq" by simp
    also have "\<dots> = process_gpu_loop B run [] (?rq @ [Some (process_batch run ?r)])"
      by (rule gpu_partial_batch[OF ne short])
    also have "\<dots> = \<lparr>gpu_exit = Blocked, gpu_results = ?rq @ [Some (process_batch run ?r)],
                         gpu_pending = []\<rparr>"
      using gpu_starved[of "[]" B run] assms by simp
    finally show ?thesis using False fb by simp
  qed
qed

lemma full_batches_lengths:
  assumes "0 < B"
  shows "map length (full_batches B xs) = replicate (length xs div B) B"
proof -
  have "length xs div B * B \<le> length xs" by simp
  from slices_length[OF this] show ?thesis
    by (simp add: full_batches_def)
qed

lemma final_batch_lengths:
  assumes "0 < B"
  shows "map length (final_batch B xs) =
           (if 0 < length xs mod B then [length xs mod B] else [])"
  using remainder_short[OF assms, of xs] by (simp add: final_batch_def mult.commute)

lemma concat_batches:
  assumes "0 < B"
  shows "concat (full_batches B xs @ final_batch B xs) = xs"
proof -
  have c: "concat (full_batches B xs) = take (length xs div B * B) xs"
    using concat_slices[of xs B "length xs div B"] by (simp add: full_batches_def)
  show ?thesis
  proof (cases "0 < length xs mod B")
    case True
    then show ?thesis using c by (simp add: final_batch_def mult.commute)
  next
    case False
    have "length xs div B * B + length xs mod B = length xs" by (rule div_mult_mod_eq)
    with False have "length xs div B * B = length xs" by linarith
    with c False show ?thesis by (simp add: final_batch_def)
  qed
qed

lemma process_batch_append:
  "process_batch run (xs @ ys) = process_batch run xs @ process_batch run ys"
  by (simp add: process_batch_def)

lemma process_batch_concat:
  "concat (map (process_batch run) bs) = process_batch run (concat bs)"
  by (induction bs) (simp_all add: process_batch_append process_batch_def)

lemma results_of_append: "results_of (xs @ ys) = results_of xs @ results_of ys"
  by (induction xs rule: results_of.induct) simp_all

lemma results_of_Some: "results_of (map Some bs) = concat bs"
  by (induction bs) simp_all

subsection \<open>\<open>process_gpu\<close>: every execution\<close>

lemma accumulate_exits:
  "case accumulate n q acc of
     RangeDone b q' \<Rightarrow> (\<exists>xs. b = acc @ xs \<and> length xs = n \<and> q = map Some xs @ q')
   | Break b q' \<Rightarrow> (\<exists>xs. b = acc @ xs \<and> length xs < n \<and> b \<noteq> [] \<and> q = map Some xs @ None # q')
   | Return q' \<Rightarrow> acc = [] \<and> 0 < n \<and> q = None # q'
   | Waits b \<Rightarrow> (\<exists>xs. b = acc @ xs \<and> length xs < n \<and> q = map Some xs)"
proof (induction q arbitrary: n acc)
  case Nil
  show ?case by (cases n) simp_all
next
  case (Cons m q)
  show ?case
  proof (cases n)
    case 0
    then show ?thesis by simp
  next
    case (Suc k)
    show ?thesis
    proof (cases m)
      case None
      with Suc show ?thesis by simp
    next
      case (Some x)
      have step: "accumulate n (m # q) acc = accumulate k q (acc @ [x])"
        using Suc Some by simp
      show ?thesis
      proof (cases "accumulate k q (acc @ [x])")
        case (RangeDone b q')
        with Cons.IH[where n = k and acc = "acc @ [x]"] obtain xs where
          "b = (acc @ [x]) @ xs" "length xs = k" "q = map Some xs @ q'" by auto
        then have "b = acc @ (x # xs) \<and> length (x # xs) = n \<and> m # q = map Some (x # xs) @ q'"
          using Suc Some by simp
        then show ?thesis unfolding step RangeDone by (simp only: loop_exit.case) blast
      next
        case (Break b q')
        with Cons.IH[where n = k and acc = "acc @ [x]"] obtain xs where
          "b = (acc @ [x]) @ xs" "length xs < k" "b \<noteq> []" "q = map Some xs @ None # q'" by auto
        then have "b = acc @ (x # xs) \<and> length (x # xs) < n \<and> b \<noteq> [] \<and>
                   m # q = map Some (x # xs) @ None # q'"
          using Suc Some by simp
        then show ?thesis unfolding step Break by (simp only: loop_exit.case) blast
      next
        case (Return q')
        with Cons.IH[where n = k and acc = "acc @ [x]"] show ?thesis by simp
      next
        case (Waits b)
        with Cons.IH[where n = k and acc = "acc @ [x]"] obtain xs where
          "b = (acc @ [x]) @ xs" "length xs < k" "q = map Some xs" by auto
        then have "b = acc @ (x # xs) \<and> length (x # xs) < n \<and> m # q = map Some (x # xs)"
          using Suc Some by simp
        then show ?thesis unfolding step Waits by (simp only: loop_exit.case) blast
      qed
    qed
  qed
qed

lemma accumulate_fresh:
  "case accumulate n q [] of
     RangeDone b q' \<Rightarrow> length b = n \<and> q = map Some b @ q'
   | Break b q' \<Rightarrow> b \<noteq> [] \<and> length b < n \<and> q = map Some b @ None # q'
   | Return q' \<Rightarrow> q = None # q'
   | Waits b \<Rightarrow> length b < n \<and> q = map Some b"
  using accumulate_exits[where n = n and q = q and acc = "[]"] by (cases "accumulate n q []") auto

lemma gpu_loop_shape:
  assumes "0 < B"
  shows "gpu_exit (process_gpu_loop B run q rq) \<noteq> FellThrough \<and>
         (\<exists>batches. gpu_results (process_gpu_loop B run q rq) =
            rq @ map Some batches
               @ (if gpu_exit (process_gpu_loop B run q rq) = Returned then [None] else []))"
  using assms
proof (induction B run q rq rule: process_gpu_loop.induct)
  case (1 B run q rq)
  let ?P = "\<lambda>r rq. gpu_exit r \<noteq> FellThrough \<and>
         (\<exists>batches. gpu_results r =
            rq @ map Some batches @ (if gpu_exit r = Returned then [None] else []))"
  have push: "?P r rq" if "?P r (rq @ [Some rs])" for r rs
  proof -
    from that obtain batches where
      "gpu_results r = (rq @ [Some rs]) @ map Some batches
                         @ (if gpu_exit r = Returned then [None] else [])" by blast
    then have "gpu_results r = rq @ map Some (rs # batches)
                         @ (if gpu_exit r = Returned then [None] else [])" by simp
    with that show ?thesis by blast
  qed
  show ?case
  proof (cases "accumulate B q []")
    case (RangeDone b q')
    with accumulate_fresh[where n = B and q = q] \<open>0 < B\<close> have ne: "b \<noteq> []" by auto
    from "1.IH"(1)[OF RangeDone ne \<open>0 < B\<close>]
    have "?P (process_gpu_loop B run q' (queue_put rq (Some (process_batch run b))))
            (rq @ [Some (process_batch run b)])"
      by (simp add: queue_put_def)
    then have "?P (process_gpu_loop B run q' (queue_put rq (Some (process_batch run b)))) rq"
      by (rule push)
    moreover have "process_gpu_loop B run q rq =
                     process_gpu_loop B run q' (queue_put rq (Some (process_batch run b)))"
      using RangeDone ne by (subst process_gpu_loop.simps) simp
    ultimately show ?thesis by simp
  next
    case (Break b q')
    with accumulate_fresh[where n = B and q = q] have ne: "b \<noteq> []" by auto
    from "1.IH"(2)[OF Break ne \<open>0 < B\<close>]
    have "?P (process_gpu_loop B run q' (queue_put rq (Some (process_batch run b))))
            (rq @ [Some (process_batch run b)])"
      by (simp add: queue_put_def)
    then have "?P (process_gpu_loop B run q' (queue_put rq (Some (process_batch run b)))) rq"
      by (rule push)
    moreover have "process_gpu_loop B run q rq =
                     process_gpu_loop B run q' (queue_put rq (Some (process_batch run b)))"
      using Break ne by (subst process_gpu_loop.simps) simp
    ultimately show ?thesis by simp
  next
    case (Return q')
    then have "process_gpu_loop B run q rq =
                 \<lparr>gpu_exit = Returned, gpu_results = rq @ [None], gpu_pending = q'\<rparr>"
      by (subst process_gpu_loop.simps) (simp add: queue_put_def)
    then show ?thesis by simp
  next
    case (Waits b)
    then have "process_gpu_loop B run q rq =
                 \<lparr>gpu_exit = Blocked, gpu_results = rq, gpu_pending = []\<rparr>"
      by (subst process_gpu_loop.simps) simp
    then show ?thesis by simp
  qed
qed

subsection \<open>\<open>process_gpu\<close> and \<open>producer\<close>: a shard from end to end\<close>

lemma process_gpu_shard:
  "process_gpu sess g (producer load [] data) rq =
     \<lparr>gpu_exit = (if length data mod 256 = 0 then Returned else Blocked),
      gpu_results = rq @ map (\<lambda>b. Some (process_batch (sess g) b))
                          (full_batches 256 (map (feature_record load) data)
                           @ final_batch 256 (map (feature_record load) data))
                       @ (if length data mod 256 = 0 then [None] else []),
      gpu_pending = []\<rparr>"
proof -
  have "(0::nat) < 256" by simp
  from gpu_shard[OF this, of "sess g" "map (feature_record load) data" rq] show ?thesis
    by (simp add: process_gpu_def producer_queue)
qed

lemma final_accumulation:
  assumes "0 < B"
  shows "accumulate B (map Some (drop (B * (length xs div B)) xs) @ [None]) [] =
           (if 0 < length xs mod B then Break (drop (B * (length xs div B)) xs) []
            else Return [])"
proof -
  let ?r = "drop (B * (length xs div B)) xs"
  have len: "length ?r = length xs mod B"
    using remainder_short[OF assms, of xs] by (simp add: mult.commute)
  show ?thesis
  proof (cases "0 < length xs mod B")
    case True
    with len assms have lt: "length ?r < B" and ne: "?r \<noteq> []" by auto
    then obtain k where k: "B - length ?r = Suc k" by (cases "B - length ?r") simp_all
    have "accumulate B (map Some ?r @ [None]) [] = accumulate (B - length ?r) [None] ?r"
      using lt by (simp add: accumulate_items)
    also have "\<dots> = Break ?r []" unfolding k using ne by (simp del: drop_eq_Nil drop_eq_Nil2)
    finally show ?thesis using True by (simp only: if_True)
  next
    case False
    with len have e: "?r = []" by simp
    from assms obtain k where "B = Suc k" by (cases B) simp_all
    then have "accumulate B [None] [] = Return []" by simp
    with e False show ?thesis by simp
  qed
qed

text \<open>
  C1. For a shard whose size is not a multiple of 256, \<open>process_gpu\<close> leaves its last
  inner loop by the \<open>break\<close> on the end marker with the non-empty partial batch, puts
  that batch's results, and the accumulation that follows finds the device queue
  exhausted: the process is blocked in \<open>get\<close> for ever. Everything it has put on the
  result queue is result lists, the partial batch last; it puts no end marker, and from
  the exhausted queue it puts nothing at all.
\<close>

theorem partial_batch_deadlock:
  fixes data :: "work_item list"
    and load :: "string \<Rightarrow> nat \<Rightarrow> 'feat \<times> nat"
    and sess :: "nat \<Rightarrow> 'feat \<Rightarrow> nat \<Rightarrow> 'tok"
    and g :: nat
    and rq :: "(string \<times> 'tok) list option list"
  defines "frs \<equiv> map (feature_record load) data"
  defines "partial \<equiv> drop (256 * (length data div 256)) frs"
  defines "r \<equiv> process_gpu sess g (producer load [] data) rq"
  assumes "length data mod 256 \<noteq> 0"
  shows "accumulate 256 (map Some partial @ [None]) [] = Break partial []
       \<and> partial \<noteq> []
       \<and> gpu_results r = rq @ map (\<lambda>b. Some (process_batch (sess g) b)) (full_batches 256 frs)
                            @ [Some (process_batch (sess g) partial)]
       \<and> process_gpu sess g [] (gpu_results r) =
           \<lparr>gpu_exit = Blocked, gpu_results = gpu_results r, gpu_pending = []\<rparr>
       \<and> gpu_exit r = Blocked
       \<and> gpu_pending r = []
       \<and> None \<notin> set (drop (length rq) (gpu_results r))"
proof -
  have pos: "(0::nat) < 256" by simp
  have len: "length frs = length data" by (simp add: frs_def)
  have fin: "final_batch 256 frs = [partial]"
    using assms(4) by (simp add: final_batch_def partial_def len)
  have a: "accumulate 256 (map Some partial @ [None]) [] = Break partial []"
    using final_accumulation[OF pos, of frs] assms(4) by (simp add: partial_def len)
  have "length partial = length data mod 256"
    using remainder_short[OF pos, of frs] by (simp add: partial_def len mult.commute)
  with assms(4) have b: "partial \<noteq> []" by auto
  have res: "gpu_results r = rq @ map (\<lambda>b. Some (process_batch (sess g) b)) (full_batches 256 frs)
                            @ [Some (process_batch (sess g) partial)]"
    using assms(4) fin by (simp add: r_def process_gpu_shard frs_def[symmetric])
  have c: "process_gpu sess g [] (gpu_results r) =
           \<lparr>gpu_exit = Blocked, gpu_results = gpu_results r, gpu_pending = []\<rparr>"
    using gpu_starved[of "[]" 256 "sess g" "gpu_results r"] by (simp add: process_gpu_def)
  have d: "gpu_exit r = Blocked" "gpu_pending r = []"
    using assms(4) by (simp_all add: r_def process_gpu_shard)
  have e: "None \<notin> set (drop (length rq) (gpu_results r))"
    unfolding res by auto
  from a b res c d e show ?thesis by blast
qed

lemma length_process_batch: "length (process_batch run b) = length b"
  by (simp add: process_batch_def)

theorem partial_batch_deadlock_witness:
  "length (replicate 300 \<lparr>spk_name = ''s'', wav_name = ''a.wav'', line_text = ''t'',
                            index_folder = ''d''\<rparr>) mod 256 \<noteq> 0
   \<and> gpu_exit (process_gpu (\<lambda>g feat n. [g, feat, n]) 0
        (producer (\<lambda>p sr. (length p, sr)) []
           (replicate 300 \<lparr>spk_name = ''s'', wav_name = ''a.wav'', line_text = ''t'',
                            index_folder = ''d''\<rparr>)) []) = Blocked
   \<and> map (map_option length)
        (gpu_results (process_gpu (\<lambda>g feat n. [g, feat, n]) 0
           (producer (\<lambda>p sr. (length p, sr)) []
              (replicate 300 \<lparr>spk_name = ''s'', wav_name = ''a.wav'', line_text = ''t'',
                               index_folder = ''d''\<rparr>)) [])) = [Some 256, Some 44]"
proof -
  let ?data = "replicate 300 \<lparr>spk_name = ''s'', wav_name = ''a.wav'', line_text = ''t'',
                              index_folder = ''d''\<rparr>"
  let ?load = "\<lambda>(p::string) (sr::nat). (length p, sr)"
  let ?sess = "\<lambda>(g::nat) (feat::nat) (n::nat). [g, feat, n]"
  let ?frs = "map (feature_record ?load) ?data"
  let ?r = "process_gpu ?sess 0 (producer ?load [] ?data) []"
  have h: "length ?data mod 256 \<noteq> 0" by simp
  note d = partial_batch_deadlock[OF h, where sess = ?sess and g = 0 and load = ?load and rq = "[]"]
  from d have ex: "gpu_exit ?r = Blocked" by blast
  from d have res: "gpu_results ?r =
      [] @ map (\<lambda>b. Some (process_batch (?sess 0) b)) (full_batches 256 ?frs)
         @ [Some (process_batch (?sess 0) (drop (256 * (length ?data div 256)) ?frs))]"
    by blast
  have pos: "(0::nat) < 256" by simp
  have full: "map length (full_batches 256 ?frs) = [256]"
    using full_batches_lengths[OF pos, of ?frs] by simp
  have "map (map_option length) (gpu_results ?r) =
          map Some (map length (full_batches 256 ?frs))
          @ [Some (length (drop (256 * (length ?data div 256)) ?frs))]"
    unfolding res by (simp add: length_process_batch comp_def)
  also have "\<dots> = [Some 256, Some 44]"
    unfolding full by simp
  finally have sizes: "map (map_option length) (gpu_results ?r) = [Some 256, Some 44]" .
  from h ex sizes show ?thesis by blast
qed

text \<open>
  C4. For a shard of size \<open>S\<close> on the queue its producer fills, \<open>process_gpu\<close> puts the
  results of \<open>floor(S/256)\<close> full batches of 256 items, in order. If \<open>S mod 256 > 0\<close> the
  last inner loop is left by the \<open>break\<close> on the end marker with the remaining
  \<open>S mod 256\<close> items, whose results are put last. If \<open>S mod 256 = 0\<close> there is no
  partial batch: the last inner loop pulls the end marker into the empty batch, the end
  marker is put on the result queue and the process returns.
\<close>

theorem batching_boundary:
  fixes data :: "work_item list"
    and load :: "string \<Rightarrow> nat \<Rightarrow> 'feat \<times> nat"
    and sess :: "nat \<Rightarrow> 'feat \<Rightarrow> nat \<Rightarrow> 'tok"
    and g :: nat
    and rq :: "(string \<times> 'tok) list option list"
  defines "frs \<equiv> map (feature_record load) data"
  defines "remaining \<equiv> drop (256 * (length data div 256)) frs"
  defines "r \<equiv> process_gpu sess g (producer load [] data) rq"
  shows "gpu_results r =
           rq @ map (\<lambda>b. Some (process_batch (sess g) b)) (full_batches 256 frs @ final_batch 256 frs)
              @ (if length data mod 256 = 0 then [None] else [])
       \<and> map length (full_batches 256 frs) = replicate (length data div 256) 256
       \<and> final_batch 256 frs = (if 0 < length data mod 256 then [remaining] else [])
       \<and> length remaining = length data mod 256
       \<and> concat (full_batches 256 frs @ final_batch 256 frs) = frs
       \<and> process_gpu sess g (producer load [] data) rq =
           process_gpu sess g (map Some remaining @ [None])
             (rq @ map (\<lambda>b. Some (process_batch (sess g) b)) (full_batches 256 frs))
       \<and> accumulate 256 (map Some remaining @ [None]) [] =
           (if 0 < length data mod 256 then Break remaining [] else Return [])
       \<and> gpu_exit r = (if length data mod 256 = 0 then Returned else Blocked)"
proof -
  have pos: "(0::nat) < 256" by simp
  have len: "length frs = length data" by (simp add: frs_def)
  have a: "gpu_results r =
           rq @ map (\<lambda>b. Some (process_batch (sess g) b)) (full_batches 256 frs @ final_batch 256 frs)
              @ (if length data mod 256 = 0 then [None] else [])"
    by (simp add: r_def process_gpu_shard frs_def)
  have b: "map length (full_batches 256 frs) = replicate (length data div 256) 256"
    using full_batches_lengths[OF pos, of frs] by (simp add: len)
  have c: "final_batch 256 frs = (if 0 < length data mod 256 then [remaining] else [])"
    by (simp add: final_batch_def remaining_def len)
  have d: "length remaining = length data mod 256"
    using remainder_short[OF pos, of frs] by (simp add: remaining_def len mult.commute)
  have e: "concat (full_batches 256 frs @ final_batch 256 frs) = frs"
    by (rule concat_batches[OF pos])
  have le: "length frs div 256 * 256 \<le> length frs" by simp
  have f: "process_gpu sess g (producer load [] data) rq =
           process_gpu sess g (map Some remaining @ [None])
             (rq @ map (\<lambda>b. Some (process_batch (sess g) b)) (full_batches 256 frs))"
    using gpu_after_full_batches[OF pos le, of "sess g" "[None]" rq]
    by (simp add: process_gpu_def producer_queue full_batches_def remaining_def len
                  frs_def[symmetric] mult.commute)
  have g: "accumulate 256 (map Some remaining @ [None]) [] =
           (if 0 < length data mod 256 then Break remaining [] else Return [])"
    using final_accumulation[OF pos, of frs] by (simp add: remaining_def len)
  have h: "gpu_exit r = (if length data mod 256 = 0 then Returned else Blocked)"
    by (simp add: r_def process_gpu_shard)
  from a b c d e f g h show ?thesis by blast
qed

text \<open>
  C5. The producer appends to its device queue one feature record per work item, in
  the order of the shard, and then one end marker; each record carries its work item.
  The paired \<open>process_gpu\<close> reads that whole queue (nothing is left pending), and the
  results it puts are those of the shard's records in the same order.
\<close>

theorem producer_order:
  "producer load q data = q @ map Some (map (feature_record load) data) @ [None]
   \<and> map (\<lambda>fr. snd (snd fr)) (map (feature_record load) data) = data
   \<and> gpu_pending (process_gpu sess g (producer load [] data) rq) = []
   \<and> results_of (gpu_results (process_gpu sess g (producer load [] data) []))
       = process_batch (sess g) (map (feature_record load) data)"
proof -
  have pos: "(0::nat) < 256" by simp
  have a: "producer load q data = q @ map Some (map (feature_record load) data) @ [None]"
    by (rule producer_queue)
  have b: "map (\<lambda>fr. snd (snd fr)) (map (feature_record load) data) = data"
    by (induction data) (simp_all add: feature_record_item)
  have c: "gpu_pending (process_gpu sess g (producer load [] data) rq) = []"
    by (simp add: process_gpu_shard)
  let ?bs = "full_batches 256 (map (feature_record load) data)
             @ final_batch 256 (map (feature_record load) data)"
  have "results_of (gpu_results (process_gpu sess g (producer load [] data) []))
          = results_of (map Some (map (process_batch (sess g)) ?bs))"
    by (simp add: process_gpu_shard results_of_append comp_def del: map_append)
  also have "\<dots> = process_batch (sess g) (concat ?bs)"
    by (simp only: results_of_Some process_batch_concat)
  also have "concat ?bs = map (feature_record load) data"
    by (rule concat_batches[OF pos])
  finally have d: "results_of (gpu_results (process_gpu sess g (producer load [] data) []))
       = process_batch (sess g) (map (feature_record load) data)" .
  from a b c d show ?thesis by blast
qed

text \<open>
  C3. Batch assembly. One run of the inner loop pulls at most 256 items: it ends with
  exactly 256 items and no end marker pulled, or with fewer than 256 items on pulling
  the end marker (non-empty batch: \<open>Break\<close>; empty batch: \<open>Return\<close>), or it waits on the
  exhausted queue. On the end marker after a non-empty batch the partial batch is
  processed (its results are put) and the outer loop goes on with the rest of the
  queue; on the end marker with the empty batch one end marker is put on the result
  queue and the process returns; after 256 items the full batch is processed and the
  outer loop goes on.
\<close>

theorem batch_assembly:
  "(case accumulate 256 q [] of
      RangeDone b q' \<Rightarrow> length b = 256 \<and> q = map Some b @ q'
    | Break b q' \<Rightarrow> b \<noteq> [] \<and> length b < 256 \<and> q = map Some b @ None # q'
    | Return q' \<Rightarrow> q = None # q'
    | Waits b \<Rightarrow> length b < 256 \<and> q = map Some b)
   \<and> (xs \<noteq> [] \<and> length xs < 256 \<longrightarrow>
        accumulate 256 (map Some xs @ None # qa) [] = Break xs qa
        \<and> process_gpu sess g (map Some xs @ None # qa) rq =
            process_gpu sess g qa (rq @ [Some (process_batch (sess g) xs)]))
   \<and> accumulate 256 (None # qb) [] = Return qb
   \<and> process_gpu sess g (None # qb) rq =
        \<lparr>gpu_exit = Returned, gpu_results = rq @ [None], gpu_pending = qb\<rparr>
   \<and> (length ys = 256 \<longrightarrow>
        accumulate 256 (map Some ys @ qc) [] = RangeDone ys qc
        \<and> process_gpu sess g (map Some ys @ qc) rq =
            process_gpu sess g qc (rq @ [Some (process_batch (sess g) ys)]))"
proof -
  have pos: "(0::nat) < 256" by simp
  have a: "case accumulate 256 q [] of
      RangeDone b q' \<Rightarrow> length b = 256 \<and> q = map Some b @ q'
    | Break b q' \<Rightarrow> b \<noteq> [] \<and> length b < 256 \<and> q = map Some b @ None # q'
    | Return q' \<Rightarrow> q = None # q'
    | Waits b \<Rightarrow> length b < 256 \<and> q = map Some b"
    by (rule accumulate_fresh)
  have b: "accumulate 256 (map Some xs @ None # qa) [] = Break xs qa
        \<and> process_gpu sess g (map Some xs @ None # qa) rq =
            process_gpu sess g qa (rq @ [Some (process_batch (sess g) xs)])"
    if ne: "xs \<noteq> []" and lt: "length xs < 256"
  proof -
    from lt obtain k where k: "256 - length xs = Suc k" by (cases "256 - length xs") simp_all
    have "accumulate 256 (map Some xs @ None # qa) [] = accumulate (256 - length xs) (None # qa) xs"
      using lt by (simp add: accumulate_items)
    also have "\<dots> = Break xs qa" unfolding k using ne by simp
    finally have "accumulate 256 (map Some xs @ None # qa) [] = Break xs qa" .
    moreover have "process_gpu sess g (map Some xs @ None # qa) rq =
            process_gpu sess g qa (rq @ [Some (process_batch (sess g) xs)])"
      using gpu_partial_batch[OF ne lt] by (simp add: process_gpu_def)
    ultimately show ?thesis by blast
  qed
  have c: "accumulate 256 (None # qb) [] = Return qb"
  proof -
    have "accumulate (Suc 255) (None # qb) [] = Return qb" by (simp only: accumulate_end_marker) simp
    then show ?thesis by simp
  qed
  have d: "process_gpu sess g (None # qb) rq =
        \<lparr>gpu_exit = Returned, gpu_results = rq @ [None], gpu_pending = qb\<rparr>"
    using gpu_end_marker[OF pos] by (simp add: process_gpu_def)
  have e: "accumulate 256 (map Some ys @ qc) [] = RangeDone ys qc
        \<and> process_gpu sess g (map Some ys @ qc) rq =
            process_gpu sess g qc (rq @ [Some (process_batch (sess g) ys)])"
    if len: "length ys = 256"
  proof -
    have "accumulate 256 (map Some ys @ qc) [] = RangeDone ys qc"
      using len by (simp add: accumulate_items)
    moreover have "process_gpu sess g (map Some ys @ qc) rq =
            process_gpu sess g qc (rq @ [Some (process_batch (sess g) ys)])"
      using gpu_full_batch[OF pos len] by (simp add: process_gpu_def)
    ultimately show ?thesis by blast
  qed
  from a b c d e show ?thesis by blast
qed

theorem batch_assembly_witness:
  "[(1::nat, 2::nat, \<lparr>spk_name = ''s'', wav_name = ''a.wav'', line_text = ''t'',
                        index_folder = ''d''\<rparr>)] \<noteq> []
   \<and> length [(1::nat, 2::nat, \<lparr>spk_name = ''s'', wav_name = ''a.wav'', line_text = ''t'',
                        index_folder = ''d''\<rparr>)] < 256
   \<and> process_gpu (\<lambda>g feat n. [g, feat, n]) 0
        (map Some [(1::nat, 2::nat, \<lparr>spk_name = ''s'', wav_name = ''a.wav'', line_text = ''t'',
                        index_folder = ''d''\<rparr>)] @ None # []) []
       = process_gpu (\<lambda>g feat n. [g, feat, n]) 0 []
           ([] @ [Some (process_batch ((\<lambda>g feat n. [g, feat, n]) 0)
                     [(1::nat, 2::nat, \<lparr>spk_name = ''s'', wav_name = ''a.wav'',
                        line_text = ''t'', index_folder = ''d''\<rparr>)])])
   \<and> length (replicate 256 (1::nat, 2::nat, \<lparr>spk_name = ''s'', wav_name = ''a.wav'',
                        line_text = ''t'', index_folder = ''d''\<rparr>)) = 256
   \<and> accumulate 256
        (map Some (replicate 256 (1::nat, 2::nat, \<lparr>spk_name = ''s'', wav_name = ''a.wav'',
                        line_text = ''t'', index_folder = ''d''\<rparr>)) @ [None]) []
       = RangeDone (replicate 256 (1::nat, 2::nat, \<lparr>spk_name = ''s'', wav_name = ''a.wav'',
                        line_text = ''t'', index_folder = ''d''\<rparr>)) [None]"
proof -
  let ?a = "(1::nat, 2::nat, \<lparr>spk_name = ''s'', wav_name = ''a.wav'', line_text = ''t'',
                        index_folder = ''d''\<rparr>)"
  let ?sess = "\<lambda>(g::nat) (feat::nat) (n::nat). [g, feat, n]"
  have h1: "[?a] \<noteq> [] \<and> length [?a] < 256" by simp
  have h2: "length (replicate 256 ?a) = 256" by simp
  note t = batch_assembly[where xs = "[?a]" and ys = "replicate 256 ?a" and sess = ?sess
             and g = 0 and rq = "[]" and qa = "[]" and qc = "[None]"]
  from t h1 have A: "process_gpu ?sess 0 (map Some [?a] @ None # []) []
       = process_gpu ?sess 0 [] ([] @ [Some (process_batch (?sess 0) [?a])])"
    by blast
  from t h2 have B: "accumulate 256 (map Some (replicate 256 ?a) @ [None]) []
       = RangeDone (replicate 256 ?a) [None]"
    by blast
  from h1 h2 A B show ?thesis by blast
qed

text \<open>
  C10. In every execution of \<open>process_gpu\<close>, on any contents of the device queue, a
  batch with which the inner loop is left (range used up, or \<open>break\<close>) is non-empty.
  So the \<open>break\<close> of line 97 is never taken and line 115 is never reached: the process
  never ends as \<open>FellThrough\<close>, and everything it puts on the result queue is result
  lists, followed by one end marker exactly when it returned at line 93.
\<close>

theorem empty_batch_branch_dead:
  "(case accumulate 256 q [] of
      RangeDone b q' \<Rightarrow> b \<noteq> []
    | Break b q' \<Rightarrow> b \<noteq> []
    | Return q' \<Rightarrow> True
    | Waits b \<Rightarrow> True)
   \<and> gpu_exit (process_gpu sess g q rq) \<noteq> FellThrough
   \<and> (\<exists>batches. gpu_results (process_gpu sess g q rq) =
         rq @ map Some batches
            @ (if gpu_exit (process_gpu sess g q rq) = Returned then [None] else []))"
proof -
  have pos: "(0::nat) < 256" by simp
  have a: "case accumulate 256 q [] of
      RangeDone b q' \<Rightarrow> b \<noteq> []
    | Break b q' \<Rightarrow> b \<noteq> []
    | Return q' \<Rightarrow> True
    | Waits b \<Rightarrow> True"
    using accumulate_fresh[where n = 256 and q = q]
    by (cases "accumulate 256 q []") auto
  from gpu_loop_shape[OF pos, of "sess g" q rq] a show ?thesis
    by (simp add: process_gpu_def)
qed

subsection \<open>\<open>consumer\<close>\<close>

lemma save_results_append:
  "save_results s (xs @ ys) = save_results (save_results s xs) ys"
  by (induction xs arbitrary: s) (auto simp: Let_def)

lemma save_results_count:
  "processed_items (save_results s rs) = processed_items s + length rs"
  by (induction rs arbitrary: s) (auto simp: Let_def)

lemma save_results_saved:
  "saved (save_results s rs) = saved s @ map artifact rs"
  by (induction rs arbitrary: s) (auto simp: Let_def artifact_def)

lemma map_add_after_update:
  "m(k \<mapsto> t) ++ n = m ++ (map_of [(k, t)] ++ n)"
  by (rule ext) (simp add: map_add_def split: option.splits)

lemma save_results_storage:
  "storage (save_results s rs) = storage s ++ map_of (rev (map artifact rs))"
proof (induction rs arbitrary: s)
  case Nil
  show ?case by simp
next
  case (Cons r rs)
  obtain p t where r: "r = (p, t)" by (cases r)
  let ?s' = "s\<lparr>storage := np_save (storage s) (p @ ''.npy'') t,
               saved := saved s @ [(p @ ''.npy'', t)],
               processed_items := processed_items s + 1\<rparr>"
  have "storage (save_results s (r # rs)) = storage (save_results ?s' rs)"
    by (simp add: r Let_def)
  also have "\<dots> = storage ?s' ++ map_of (rev (map artifact rs))"
    by (rule Cons.IH)
  also have "storage ?s' = (storage s)(p @ ''.npy'' \<mapsto> t)"
    by (simp add: np_save_def)
  also have "(storage s)(p @ ''.npy'' \<mapsto> t) ++ map_of (rev (map artifact rs))
          = storage s ++ (map_of [(p @ ''.npy'', t)] ++ map_of (rev (map artifact rs)))"
    by (rule map_add_after_update)
  also have "map_of [(p @ ''.npy'', t)] ++ map_of (rev (map artifact rs))
          = map_of (rev (map artifact (r # rs)))"
    by (simp add: r artifact_def map_of_append del: map_of.simps)
  finally show ?case .
qed

lemma consumer_loop_done:
  "\<not> processed_items s < N \<Longrightarrow> consumer_loop N s msgs = (Finished, s, msgs)"
  by (subst consumer_loop.simps) simp

lemma consumer_loop_starved:
  "processed_items s < N \<Longrightarrow> consumer_loop N s [] = (WaitsForResults, s, [])"
  by (subst consumer_loop.simps) (simp add: queue_get_def)

lemma consumer_loop_end_marker:
  "processed_items s < N \<Longrightarrow> consumer_loop N s (None # msgs) = consumer_loop N s msgs"
  by (subst consumer_loop.simps) (simp add: queue_get_def)

lemma consumer_loop_results:
  "processed_items s < N \<Longrightarrow>
     consumer_loop N s (Some rs # msgs) = consumer_loop N (save_results s rs) msgs"
  by (subst consumer_loop.simps) (simp add: queue_get_def)

lemma consumer_loop_saves:
  "\<exists>consumed. msgs = consumed @ snd (snd (consumer_loop N s msgs)) \<and>
      fst (snd (consumer_loop N s msgs)) = save_results s (results_of consumed)"
proof (induction msgs arbitrary: s)
  case Nil
  show ?case
    by (cases "processed_items s < N") (simp_all add: consumer_loop_done consumer_loop_starved)
next
  case (Cons m msgs)
  show ?case
  proof (cases "processed_items s < N")
    case False
    then have "consumer_loop N s (m # msgs) = (Finished, s, m # msgs)"
      by (rule consumer_loop_done)
    then show ?thesis by simp
  next
    case True
    show ?thesis
    proof (cases m)
      case None
      from Cons.IH[of s] obtain consumed where
        c: "msgs = consumed @ snd (snd (consumer_loop N s msgs))"
           "fst (snd (consumer_loop N s msgs)) = save_results s (results_of consumed)" by blast
      have e: "consumer_loop N s (m # msgs) = consumer_loop N s msgs"
        using True None by (simp add: consumer_loop_end_marker)
      have "m # msgs = (None # consumed) @ snd (snd (consumer_loop N s (m # msgs)))"
        unfolding e using c(1) None by simp
      moreover have "fst (snd (consumer_loop N s (m # msgs)))
                       = save_results s (results_of (None # consumed))"
        unfolding e using c(2) by simp
      ultimately show ?thesis by blast
    next
      case (Some rs)
      from Cons.IH[of "save_results s rs"] obtain consumed where
        c: "msgs = consumed @ snd (snd (consumer_loop N (save_results s rs) msgs))"
           "fst (snd (consumer_loop N (save_results s rs) msgs))
              = save_results (save_results s rs) (results_of consumed)" by blast
      have e: "consumer_loop N s (m # msgs) = consumer_loop N (save_results s rs) msgs"
        using True Some by (simp add: consumer_loop_results)
      have "m # msgs = (Some rs # consumed) @ snd (snd (consumer_loop N s (m # msgs)))"
        unfolding e using c(1) Some by simp
      moreover have "fst (snd (consumer_loop N s (m # msgs)))
                       = save_results s (results_of (Some rs # consumed))"
        unfolding e using c(2) by (simp add: save_results_append)
      ultimately show ?thesis by blast
    qed
  qed
qed

lemma consumer_loop_finishes:
  assumes "processed_items s + length (results_of msgs) = N"
  shows "\<exists>consumed rest.
           consumer_loop N s msgs = (Finished, save_results s (results_of consumed), rest)
           \<and> msgs = consumed @ rest \<and> results_of rest = []
           \<and> (consumed = [] \<or> (\<exists>c rs. consumed = c @ [Some rs] \<and> rs \<noteq> []))"
  using assms
proof (induction msgs arbitrary: s)
  case Nil
  then have "consumer_loop N s [] = (Finished, save_results s (results_of []), [])"
    by (simp add: consumer_loop_done)
  then show ?case by (intro exI[of _ "[]"]) simp
next
  case (Cons m msgs)
  show ?case
  proof (cases "processed_items s < N")
    case False
    with Cons.prems have "length (results_of (m # msgs)) = 0" by linarith
    then have "results_of (m # msgs) = []" by simp
    moreover from False
    have "consumer_loop N s (m # msgs) = (Finished, save_results s (results_of []), m # msgs)"
      by (simp add: consumer_loop_done)
    ultimately show ?thesis by (intro exI[of _ "[]"] exI[of _ "m # msgs"]) simp
  next
    case True
    show ?thesis
    proof (cases m)
      case None
      with Cons.prems have "processed_items s + length (results_of msgs) = N" by simp
      from Cons.IH[OF this] obtain consumed rest where
        c: "consumer_loop N s msgs = (Finished, save_results s (results_of consumed), rest)"
           "msgs = consumed @ rest" "results_of rest = []"
           "consumed = [] \<or> (\<exists>c rs. consumed = c @ [Some rs] \<and> rs \<noteq> [])" by blast
      have "consumed \<noteq> []"
      proof
        assume "consumed = []"
        with c(2,3) have "results_of msgs = []" by simp
        with \<open>processed_items s + length (results_of msgs) = N\<close> True show False by simp
      qed
      with c(4) obtain c' rs where c': "consumed = c' @ [Some rs]" "rs \<noteq> []" by blast
      have "consumer_loop N s (m # msgs)
              = (Finished, save_results s (results_of (None # consumed)), rest)"
        using True None c(1) by (simp add: consumer_loop_end_marker)
      moreover have "m # msgs = (None # consumed) @ rest" using None c(2) by simp
      moreover have "None # consumed = (None # c') @ [Some rs]" using c'(1) by simp
      ultimately show ?thesis using c(3) c'(2) by blast
    next
      case (Some rs)
      with Cons.prems
      have sum: "processed_items (save_results s rs) + length (results_of msgs) = N"
        by (simp add: save_results_count)
      from Cons.IH[OF this] obtain consumed rest where
        c: "consumer_loop N (save_results s rs) msgs
              = (Finished, save_results (save_results s rs) (results_of consumed), rest)"
           "msgs = consumed @ rest" "results_of rest = []"
           "consumed = [] \<or> (\<exists>c rs. consumed = c @ [Some rs] \<and> rs \<noteq> [])" by blast
      have run: "consumer_loop N s (m # msgs)
              = (Finished, save_results s (results_of (Some rs # consumed)), rest)"
        using True Some c(1) by (simp add: consumer_loop_results save_results_append)
      have split: "m # msgs = (Some rs # consumed) @ rest" using Some c(2) by simp
      have last: "\<exists>c' rs'. Some rs # consumed = c' @ [Some rs'] \<and> rs' \<noteq> []"
      proof (cases "consumed = []")
        case True
        with c(2,3) have "results_of msgs = []" by simp
        with sum \<open>processed_items s < N\<close> have "rs \<noteq> []"
          by (auto simp: save_results_count)
        with True show ?thesis by (intro exI[of _ "[]"] exI[of _ rs]) simp
      next
        case False
        with c(4) obtain c' rs' where "consumed = c' @ [Some rs']" "rs' \<noteq> []" by blast
        then show ?thesis by (intro exI[of _ "Some rs # c'"] exI[of _ rs']) simp
      qed
      from run split c(3) last show ?thesis by blast
    qed
  qed
qed

subsection \<open>The shared result queue of the whole pipeline\<close>

lemma total_update:
  "i < length yss \<Longrightarrow>
     sum_list (map f (yss[i := y])) + f (yss ! i) = sum_list (map f yss) + (f y :: nat)"
proof (induction yss arbitrary: i)
  case Nil
  then show ?case by simp
next
  case (Cons z yss)
  then show ?case by (cases i) auto
qed

lemma total_drained:
  "concat yss = [] \<Longrightarrow> sum_list (map (\<lambda>ys. length (results_of ys)) yss) = 0"
  by (induction yss) auto

lemma interleaving_total:
  "interleaving yss zs \<Longrightarrow>
     length (results_of zs) = sum_list (map (\<lambda>ys. length (results_of ys)) yss)"
proof (induction rule: interleaving.induct)
  case (drained yss)
  then show ?case by (simp add: total_drained)
next
  case (next_from i yss x ys zs)
  let ?f = "\<lambda>ys. length (results_of ys)"
  from total_update[OF next_from.hyps(1), of ?f ys]
  have "sum_list (map ?f (yss[i := ys])) + ?f (x # ys) = sum_list (map ?f yss) + ?f ys"
    using next_from.hyps(2) by simp
  moreover have "?f (x # ys) = ?f [x] + ?f ys" "?f (x # zs) = ?f [x] + ?f zs"
    by (cases x; simp)+
  ultimately show ?case using next_from.IH by simp
qed

lemma device_puts_results:
  "results_of (device_puts sess load g shard)
     = process_batch (sess g) (map (feature_record load) shard)"
proof -
  have pos: "(0::nat) < 256" by simp
  let ?bs = "full_batches 256 (map (feature_record load) shard)
             @ final_batch 256 (map (feature_record load) shard)"
  have "results_of (device_puts sess load g shard)
          = results_of (map Some (map (process_batch (sess g)) ?bs))"
    by (simp add: device_puts_def process_gpu_shard results_of_append comp_def del: map_append)
  also have "\<dots> = process_batch (sess g) (concat ?bs)"
    by (simp only: results_of_Some process_batch_concat)
  also have "concat ?bs = map (feature_record load) shard"
    by (rule concat_batches[OF pos])
  finally show ?thesis .
qed

lemma pipeline_total:
  "sum_list (map (\<lambda>ys. length (results_of ys)) (pipeline_puts sess load shards))
     = length (concat shards)"
proof -
  have ms: "map snd (zip [0..<length shards] shards) = shards"
    by (rule map_snd_zip) simp
  have "map (\<lambda>ys. length (results_of ys)) (pipeline_puts sess load shards)
          = map (\<lambda>p. length (snd p)) (zip [0..<length shards] shards)"
    by (simp add: pipeline_puts_def device_puts_results length_process_batch comp_def
                  case_prod_unfold)
  also have "\<dots> = map length (map snd (zip [0..<length shards] shards))"
    by (simp only: map_map comp_def)
  also have "\<dots> = map length shards"
    by (simp only: ms)
  finally show ?thesis by (simp add: length_concat)
qed

lemma data_batches_concat:
  assumes "data_batches data D = Inr shards"
  shows "concat shards = data" and "length shards = D"
proof -
  from assms have "0 < D" by (cases "D = 0") (simp_all add: data_batches_def)
  from data_batches_partition[OF this, of data] assms
  show "concat shards = data" and "length shards = D" by auto
qed

text \<open>
  C6. The sink starts its counter at 0. Let the work list of \<open>N\<close> items be sharded over
  the devices and let the shared result queue hold any interleaving of what the devices
  put. Then the sink finishes; what it has pulled is a prefix of the queue, and it
  stopped pulling right after the result list that brought the counter to \<open>N\<close> (or
  pulled nothing when \<open>N = 0\<close>), whatever end markers are on the queue, pulled or not.
  End markers it pulled changed nothing: the \<open>np.save\<close> calls are, in order, one per
  pair of the pulled result lists, the counter is their number, and that number is
  \<open>N\<close>.
\<close>

theorem sink_completion:
  assumes "data_batches data D = Inr shards"
    and "interleaving (pipeline_puts sess load shards) msgs"
  shows "\<exists>s consumed rest.
           consumer fs msgs (length data) = (Finished, s, rest)
           \<and> msgs = consumed @ rest
           \<and> (consumed = [] \<or> (\<exists>c rs. consumed = c @ [Some rs] \<and> rs \<noteq> []))
           \<and> results_of rest = []
           \<and> saved s = map (\<lambda>(wav_path, speech_token). (wav_path @ ''.npy'', speech_token))
                          (results_of consumed)
           \<and> processed_items s = length (saved s)
           \<and> length (saved s) = length data"
proof -
  let ?init = "\<lparr>processed_items = 0, storage = fs, saved = []\<rparr>"
  have "length (results_of msgs) = length (concat shards)"
    using interleaving_total[OF assms(2)] by (simp add: pipeline_total)
  also have "\<dots> = length data"
    using data_batches_concat(1)[OF assms(1)] by simp
  finally have total: "length (results_of msgs) = length data" .
  then have "processed_items ?init + length (results_of msgs) = length data" by simp
  from consumer_loop_finishes[OF this] obtain consumed rest where
    c: "consumer_loop (length data) ?init msgs
          = (Finished, save_results ?init (results_of consumed), rest)"
       "msgs = consumed @ rest" "results_of rest = []"
       "consumed = [] \<or> (\<exists>c rs. consumed = c @ [Some rs] \<and> rs \<noteq> [])" by blast
  let ?fin = "save_results ?init (results_of consumed)"
  have run: "consumer fs msgs (length data) = (Finished, ?fin, rest)"
    using c(1) by (simp add: consumer_def)
  have sv: "saved ?fin = map (\<lambda>(wav_path, speech_token). (wav_path @ ''.npy'', speech_token))
                          (results_of consumed)"
    by (simp add: save_results_saved artifact_def case_prod_unfold)
  have cnt: "processed_items ?fin = length (saved ?fin)"
    by (simp add: save_results_saved save_results_count)
  have "length (results_of msgs) = length (results_of consumed)"
    using c(2,3) by (simp add: results_of_append)
  with total
  have n: "length (saved ?fin) = length data"
    by (simp add: save_results_saved)
  from run c(2) c(4) c(3) sv cnt n show ?thesis by blast
qed

lemma device_puts_eq:
  "device_puts sess load g shard =
     map (\<lambda>b. Some (process_batch (sess g) b))
       (full_batches 256 (map (feature_record load) shard)
        @ final_batch 256 (map (feature_record load) shard))
     @ (if length shard mod 256 = 0 then [None] else [])"
  by (simp add: device_puts_def process_gpu_shard)

theorem sink_completion_witness:
  "data_batches
     [\<lparr>spk_name = ''s'', wav_name = ''a.wav'', line_text = ''t'', index_folder = ''d''\<rparr>,
      \<lparr>spk_name = ''s'', wav_name = ''b.wav'', line_text = ''u'', index_folder = ''d''\<rparr>] 3
     = Inr [[], [],
            [\<lparr>spk_name = ''s'', wav_name = ''a.wav'', line_text = ''t'', index_folder = ''d''\<rparr>,
             \<lparr>spk_name = ''s'', wav_name = ''b.wav'', line_text = ''u'', index_folder = ''d''\<rparr>]]
   \<and> interleaving
        (pipeline_puts (\<lambda>g feat n. [feat, n]) (\<lambda>p sr. (length p, sr))
           [[], [],
            [\<lparr>spk_name = ''s'', wav_name = ''a.wav'', line_text = ''t'', index_folder = ''d''\<rparr>,
             \<lparr>spk_name = ''s'', wav_name = ''b.wav'', line_text = ''u'',
               index_folder = ''d''\<rparr>]])
        [None, Some [(''./dataset/d/a.wav'', [17, 16000]),
                     (''./dataset/d/b.wav'', [17, 16000])], None]
   \<and> (\<exists>s rest.
         consumer (Map.empty :: string \<rightharpoonup> nat list)
           [None, Some [(''./dataset/d/a.wav'', [17, 16000]),
                        (''./dataset/d/b.wav'', [17, 16000])], None] 2
           = (Finished, s, rest)
         \<and> processed_items s = 2 \<and> length (saved s) = 2)"
proof -
  let ?i = "\<lparr>spk_name = ''s'', wav_name = ''a.wav'', line_text = ''t'', index_folder = ''d''\<rparr>"
  let ?j = "\<lparr>spk_name = ''s'', wav_name = ''b.wav'', line_text = ''u'', index_folder = ''d''\<rparr>"
  let ?sess = "\<lambda>(g::nat) (feat::nat) (n::nat). [feat, n]"
  let ?load = "\<lambda>(p::string) (sr::nat). (length p, sr)"
  let ?rs = "[(''./dataset/d/a.wav'', [17, 16000 :: nat]),
              (''./dataset/d/b.wav'', [17, 16000])]"
  let ?msgs = "[None, Some ?rs, None]"
  have up: "[0..<3] = [0, 1, 2::nat]"
    by (simp add: upt_rec)
  have sh: "data_batches [?i, ?j] 3 = Inr [[], [], [?i, ?j]]"
    by (simp add: data_batches_def py_slice_def Let_def up)
  have rs: "process_batch (\<lambda>(feat::nat) (n::nat). [feat, n])
              (map (feature_record ?load) [?i, ?j]) = ?rs"
    by (simp add: process_batch_def feature_record_def os_path_join_def join_step_def
                  dataset_dir_def)
  have puts: "pipeline_puts ?sess ?load [[], [], [?i, ?j]] = [[None], [None], [Some ?rs]]"
    using rs by (simp add: pipeline_puts_def device_puts_eq full_batches_def final_batch_def
                           upt_rec)
  have a0: "interleaving [[], [], [] :: (string \<times> nat list) list option list] []"
    by (rule interleaving.drained) simp
  have a1: "interleaving [[], [None], [] :: (string \<times> nat list) list option list] [None]"
  proof (rule interleaving.next_from[where i = "Suc 0" and ys = "[]"])
    show "Suc 0 < length [[], [None], [] :: (string \<times> nat list) list option list]" by simp
    show "[[], [None], [] :: (string \<times> nat list) list option list] ! Suc 0 = None # []"
      by simp
    show "interleaving ([[], [None], [] :: (string \<times> nat list) list option list]
                          [Suc 0 := []]) []"
      using a0 by simp
  qed
  have a2: "interleaving [[], [None], [Some ?rs]] [Some ?rs, None]"
  proof (rule interleaving.next_from[where i = "Suc (Suc 0)" and ys = "[]"])
    show "Suc (Suc 0) < length [[], [None], [Some ?rs]]" by simp
    show "[[], [None], [Some ?rs]] ! Suc (Suc 0) = Some ?rs # []" by simp
    show "interleaving ([[], [None], [Some ?rs]][Suc (Suc 0) := []]) [None]"
      using a1 by simp
  qed
  have "interleaving [[None], [None], [Some ?rs]] ?msgs"
  proof (rule interleaving.next_from[where i = 0 and ys = "[]"])
    show "0 < length [[None], [None], [Some ?rs]]" by simp
    show "[[None], [None], [Some ?rs]] ! 0 = None # []" by simp
    show "interleaving ([[None], [None], [Some ?rs]][0 := []]) [Some ?rs, None]"
      using a2 by simp
  qed
  with puts have il: "interleaving (pipeline_puts ?sess ?load [[], [], [?i, ?j]]) ?msgs"
    by simp
  have l: "length [?i, ?j] = 2" by simp
  from sink_completion[OF sh il, of "Map.empty :: string \<rightharpoonup> nat list"]
  obtain s consumed rest where
    r: "consumer (Map.empty :: string \<rightharpoonup> nat list) ?msgs (length [?i, ?j]) = (Finished, s, rest)"
       "processed_items s = length (saved s)" "length (saved s) = length [?i, ?j]"
    by blast
  from r(1) have r1: "consumer (Map.empty :: string \<rightharpoonup> nat list) ?msgs 2 = (Finished, s, rest)"
    unfolding l .
  from r(3) have r3: "length (saved s) = 2"
    unfolding l .
  from r(2) r3 have r2: "processed_items s = 2"
    by (rule trans)
  from r1 r2 r3
  have "\<exists>s rest. consumer (Map.empty :: string \<rightharpoonup> nat list) ?msgs 2 = (Finished, s, rest)
         \<and> processed_items s = 2 \<and> length (saved s) = 2"
    by blast
  with sh il show ?thesis by blast
qed

subsection \<open>Where the results are stored\<close>

lemma process_batch_paths:
  "process_batch run (map (feature_record load) data)
     = map (\<lambda>item. (wav_path_of item,
                     run (fst (load (wav_path_of item) 16000))
                         (snd (load (wav_path_of item) 16000)))) data"
  by (simp add: process_batch_def feature_record_eq wav_path_of_def comp_def)

lemma consumer_one_device:
  "\<exists>rest. consumer fs (device_puts sess load g data) (length data)
     = (Finished,
        save_results \<lparr>processed_items = 0, storage = fs, saved = []\<rparr>
          (process_batch (sess g) (map (feature_record load) data)),
        rest)"
proof -
  let ?init = "\<lparr>processed_items = 0, storage = fs, saved = []\<rparr>"
  let ?msgs = "device_puts sess load g data"
  have total: "results_of ?msgs = process_batch (sess g) (map (feature_record load) data)"
    by (rule device_puts_results)
  then have "processed_items ?init + length (results_of ?msgs) = length data"
    by (simp add: length_process_batch)
  from consumer_loop_finishes[OF this] obtain consumed rest where
    c: "consumer_loop (length data) ?init ?msgs
          = (Finished, save_results ?init (results_of consumed), rest)"
       "?msgs = consumed @ rest" "results_of rest = []" by blast
  have "results_of ?msgs = results_of consumed @ results_of rest"
    by (subst c(2)) (rule results_of_append)
  with c(3) total have "results_of consumed = process_batch (sess g) (map (feature_record load) data)"
    by simp
  with c(1) show ?thesis by (simp add: consumer_def)
qed

text \<open>
  C9. Every \<open>np.save\<close> call of the sink is made with the path of a result record
  followed by \<open>.npy\<close>, and the path of a result record is \<open>wav_path\<close>, the joined path
  from which the producer loaded the audio. So, for one device and its shard, the sink
  stores one artifact per item at \<open>wav_path + ".npy"\<close>. A save replaces whatever the
  file system held at that path and raises nothing: after the run the file system is
  the one the run started with, overridden by the saved artifacts.
\<close>

theorem artifacts_beside_sources:
  "saved (save_results s rs)
     = saved s @ map (\<lambda>(wav_path, speech_token). (wav_path @ ''.npy'', speech_token)) rs
   \<and> storage (save_results s rs)
     = storage s ++ map_of (rev (map (\<lambda>(wav_path, speech_token).
                                         (wav_path @ ''.npy'', speech_token)) rs))
   \<and> storage (save_results (s\<lparr>storage := (storage s)(path @ ''.npy'' \<mapsto> old)\<rparr>) [(path, new)])
     = (storage s)(path @ ''.npy'' \<mapsto> new)
   \<and> feature_record load item
     = (fst (load (wav_path_of item) 16000), snd (load (wav_path_of item) 16000), item)
   \<and> wav_path_of item = os_path_join dataset_dir [index_folder item, wav_name item]
   \<and> map fst (process_batch run (map (feature_record load) data)) = map wav_path_of data
   \<and> saved (fst (snd (consumer fs (device_puts sess load g data) (length data))))
     = map (\<lambda>item. (wav_path_of item @ ''.npy'',
                     sess g (fst (load (wav_path_of item) 16000))
                            (snd (load (wav_path_of item) 16000)))) data
   \<and> storage (fst (snd (consumer fs (device_puts sess load g data) (length data))))
     = fs ++ map_of (rev (saved (fst (snd (consumer fs (device_puts sess load g data)
                                            (length data))))))"
proof -
  have art: "artifact = (\<lambda>(wav_path, speech_token). (wav_path @ ''.npy'', speech_token))"
    by (rule ext) (simp add: artifact_def case_prod_unfold)
  have a: "saved (save_results s rs)
     = saved s @ map (\<lambda>(wav_path, speech_token). (wav_path @ ''.npy'', speech_token)) rs"
    using save_results_saved[of s rs] by (simp only: art)
  have b: "storage (save_results s rs)
     = storage s ++ map_of (rev (map (\<lambda>(wav_path, speech_token).
                                         (wav_path @ ''.npy'', speech_token)) rs))"
    using save_results_storage[of s rs] by (simp only: art)
  have c: "storage (save_results (s\<lparr>storage := (storage s)(path @ ''.npy'' \<mapsto> old)\<rparr>)
                      [(path, new)])
     = (storage s)(path @ ''.npy'' \<mapsto> new)"
    by (simp add: Let_def np_save_def)
  have d: "feature_record load item
     = (fst (load (wav_path_of item) 16000), snd (load (wav_path_of item) 16000), item)"
    by (rule feature_record_eq)
  have e: "wav_path_of item = os_path_join dataset_dir [index_folder item, wav_name item]"
    by (rule wav_path_of_def)
  have f: "map fst (process_batch run (map (feature_record load) data)) = map wav_path_of data"
    by (simp add: process_batch_paths comp_def)
  let ?init = "\<lparr>processed_items = 0, storage = fs, saved = []\<rparr>"
  let ?fin = "fst (snd (consumer fs (device_puts sess load g data) (length data)))"
  from consumer_one_device[of fs sess load g data]
  have s: "?fin = save_results ?init (process_batch (sess g) (map (feature_record load) data))"
    by auto
  have g: "saved ?fin
     = map (\<lambda>item. (wav_path_of item @ ''.npy'',
                     sess g (fst (load (wav_path_of item) 16000))
                            (snd (load (wav_path_of item) 16000)))) data"
    unfolding s by (simp add: save_results_saved process_batch_paths artifact_def comp_def)
  have h: "storage ?fin = fs ++ map_of (rev (saved ?fin))"
    unfolding s by (simp add: save_results_saved save_results_storage)
  from a b c d e f g h show ?thesis by blast
qed

subsection \<open>Work-list discovery\<close>

lemma read_lines_first_success:
  assumes "\<forall>e \<in> set before. opn file_path e = Inl UnicodeDecodeError"
    and "opn file_path encoding = Inr lines"
  shows "read_lines opn file_path (before @ encoding # rest) = Inr (Some lines)"
  using assms by (induction before) simp_all

lemma read_lines_none_left:
  assumes "\<forall>e \<in> set es. opn file_path e = Inl UnicodeDecodeError"
  shows "read_lines opn file_path es = Inr None"
  using assms by (induction es) simp_all

lemma read_lines_other_exception:
  assumes "\<forall>e \<in> set before. opn file_path e = Inl UnicodeDecodeError"
    and "opn file_path encoding = Inl err" and "err \<noteq> UnicodeDecodeError"
  shows "read_lines opn file_path (before @ encoding # rest) = Inl err"
  using assms by (induction before) simp_all

lemma files_loop_skips_undecodable:
  assumes "endswith file ''.txt''"
    and "\<forall>e \<in> set encodings. opn (os_path_join root [file]) e = Inl UnicodeDecodeError"
  shows "files_loop opn relpath root d (file # rest)
           = files_loop opn relpath root
               (d\<lparr>printed := printed d @ [CannotDecode (os_path_join root [file])]\<rparr>) rest"
proof -
  have "read_lines opn (os_path_join root [file]) encodings = Inr None"
    using assms(2) by (rule read_lines_none_left[where opn = opn and es = encodings])
  with assms(1) show ?thesis by (simp add: Let_def)
qed

lemma split_at_fields: "length (split_at sep s) = Suc (count_list s sep)"
  by (induction s) (auto split: list.splits)

lemma parse_lines_skips_malformed:
  assumes "count_list line CHR ''|'' \<noteq> 2"
  shows "parse_lines folder d (line # lines)
           = parse_lines folder (d\<lparr>printed := printed d @ [BadLine line]\<rparr>) lines"
proof -
  have "length (split_at CHR ''|'' line) \<noteq> 3"
    using assms by (simp add: split_at_fields)
  then show ?thesis
    by (auto split: list.splits)
qed

text \<open>
  C7, at a label file that has no byte order mark and is valid in none of UTF-8, GBK
  and GB2312 (the two bytes 0x80 0x80, say). \<open>open\<close> with these three encodings raises
  \<open>UnicodeDecodeError\<close>; with \<open>utf-16\<close> the decoder raises \<open>UnicodeError\<close> (the stream
  does not start with a byte order mark), which is not a \<open>UnicodeDecodeError\<close> and
  passes the \<open>except\<close> clause of line 182. Discovery ends with that exception: the
  file is not skipped, and the well-formed label file after it is never read.
\<close>

theorem discovery_aborts_without_bom:
  "discover
     (\<lambda>file_path encoding.
        if file_path = ''./dataset/a.txt''
        then (if encoding = UTF16 then Inl UnicodeError else Inl UnicodeDecodeError)
        else Inr [''spk|b.wav|text''])
     (\<lambda>root start. ''.'')
     [(''./dataset'', [], [''a.txt'', ''b.txt''])]
   = Inl UnicodeError"
  by (simp add: discover_def endswith_def os_path_join_def join_step_def encodings_def Let_def)

lemma discovery_reads_later_files:
  "discover
     (\<lambda>file_path encoding.
        if file_path = ''./dataset/a.txt'' then Inl UnicodeDecodeError
        else if encoding = GBK then Inr [''spk|b.wav|text'', ''no separator''] 
        else Inl UnicodeDecodeError)
     (\<lambda>root start. ''.'')
     [(''./dataset'', [], [''a.txt'', ''b.txt''])]
   = Inr \<lparr>todo = [\<lparr>spk_name = ''spk'', wav_name = ''b.wav'', line_text = ''text'',
                     index_folder = ''.''\<rparr>],
          printed = [CannotDecode ''./dataset/a.txt'', BadLine ''no separator'']\<rparr>"
  by (simp add: discover_def endswith_def os_path_join_def join_step_def encodings_def Let_def)

subsection \<open>The sink outside the pipeline's guarantee\<close>

text \<open>
  The test of line 120 is made between result lists only. When fewer than
  \<open>total_items\<close> results ever arrive the sink waits for ever; a result list that
  carries the counter past \<open>total_items\<close> is saved whole.
\<close>

lemma consumer_loop_waits_when_short:
  "processed_items s + length (results_of msgs) < N \<Longrightarrow>
     fst (consumer_loop N s msgs) = WaitsForResults"
proof (induction msgs arbitrary: s)
  case Nil
  then show ?case by (simp add: consumer_loop_starved)
next
  case (Cons m msgs)
  then have lt: "processed_items s < N" by simp
  show ?case
  proof (cases m)
    case None
    with Cons lt show ?thesis by (simp add: consumer_loop_end_marker)
  next
    case (Some rs)
    with Cons.prems have "processed_items (save_results s rs) + length (results_of msgs) < N"
      by (simp add: save_results_count)
    from Cons.IH[OF this] Some lt show ?thesis by (simp add: consumer_loop_results)
  qed
qed

lemma consumer_saves_whole_lists:
  "consumer fs [Some [(p, t), (p', t')]] 1
     = (Finished,
        \<lparr>processed_items = 2, storage = fs(p @ ''.npy'' \<mapsto> t, p' @ ''.npy'' \<mapsto> t'),
         saved = [(p @ ''.npy'', t), (p' @ ''.npy'', t')]\<rparr>,
        [])"
proof -
  have "consumer fs [Some [(p, t), (p', t')]] 1
          = consumer_loop 1 (save_results \<lparr>processed_items = 0, storage = fs, saved = []\<rparr>
                               [(p, t), (p', t')]) []"
    by (simp add: consumer_def consumer_loop_results)
  also have "\<dots> = (Finished,
                     save_results \<lparr>processed_items = 0, storage = fs, saved = []\<rparr>
                       [(p, t), (p', t')], [])"
    by (rule consumer_loop_done) (simp only: save_results_count, simp)
  finally show ?thesis by (simp add: Let_def np_save_def)
qed

end
